theory Spec2Isabelle
  imports Main "HOL-Library.Word" "HOL-Library.Log_Nat"
begin

unbundle bit_operations_syntax

section \<open>Conventions\<close>

text \<open>
  This theory embeds the sparse XOR-equation solver and the numeric helper kernels of the
  fountain-code package.  A Go \<^verbatim>\<open>byte\<close> is an \<open>8 word\<close>, a \<^verbatim>\<open>uint32\<close> a \<open>32 word\<close>.
  A Go \<^verbatim>\<open>int\<close> that counts bytes, rows or indices is an \<open>int\<close>; the places where the
  64-bit range or the \<^verbatim>\<open>float64\<close> rounding of the source matters are written out where
  they occur.  A run-time panic of the source (an index or a slice bound out of range) is
  the value \<open>Inl\<close> of a sum type.
\<close>

type_synonym byte = "8 word"

datatype go_panic = IndexOutOfRange | SliceBoundsOutOfRange | MakeSliceLenOutOfRange | DivideByZero

section \<open>Blocks (block.go)\<close>

record block =
  data :: "byte list"
  padding :: int

definition newBlock :: "int \<Rightarrow> block" where
  "newBlock len = \<lparr>data = [], padding = len\<rparr>"

definition block_length :: "block \<Rightarrow> int" where
  "block_length b = int (length (data b)) + padding b"

definition block_empty :: "block \<Rightarrow> bool" where
  "block_empty b \<longleftrightarrow> block_length b = 0"

text \<open>
  The loop \<^verbatim>\<open>for i := 0; i < len(a.data); i++ { b.data[i] ^= a.data[i] }\<close> of
  \<^verbatim>\<open>block.xor\<close>.  It runs after the destination has been grown, so every index it
  touches is inside both slices.
\<close>

function xor_loop :: "nat \<Rightarrow> byte list \<Rightarrow> byte list \<Rightarrow> byte list" where
  "xor_loop i bd ad =
     (if i < length ad then xor_loop (i + 1) (bd[i := (bd ! i) XOR (ad ! i)]) ad else bd)"
  by pat_completeness auto
termination
  by (relation "measure (\<lambda>(i, bd, ad). length ad - i)") auto

declare xor_loop.simps [simp del]

text \<open>
  \<^verbatim>\<open>func (b *block) xor(a block)\<close>: the receiver is returned updated.  \<^verbatim>\<open>append\<close> of
  \<^verbatim>\<open>inc\<close> zero bytes is \<open>replicate\<close>.
\<close>

definition block_xor :: "block \<Rightarrow> block \<Rightarrow> block" where
  "block_xor b a =
     (let b1 = (if length (data b) < length (data a)
                then (let inc = int (length (data a)) - int (length (data b))
                      in \<lparr>data = data b @ replicate (nat inc) 0,
                          padding = (if padding b > inc then padding b - inc else 0)\<rparr>)
                else b)
      in b1\<lparr>data := xor_loop 0 (data b1) (data a)\<rparr>)"

section \<open>The R10 degree function (raptor codec)\<close>

definition deg_f :: "32 word list" where
  "deg_f = [0, 10241, 491582, 712794, 831695, 948446, 1032189, 1048576]"

definition deg_d :: "int list" where
  "deg_d = [0, 1, 2, 3, 4, 10, 11, 40]"

text \<open>The loop \<^verbatim>\<open>for j := 1; j < len(f)-1; j++\<close> of \<^verbatim>\<open>deg\<close>, with its early return.\<close>

function deg_loop :: "nat \<Rightarrow> 32 word \<Rightarrow> int" where
  "deg_loop j v =
     (if j < length deg_f - 1
      then (if v < deg_f ! j then deg_d ! j else deg_loop (j + 1) v)
      else deg_d ! (length deg_d - 1))"
  by pat_completeness auto
termination
  by (relation "measure (\<lambda>(j, v). length deg_f - j)") auto

declare deg_loop.simps [simp del]

definition deg :: "32 word \<Rightarrow> int" where
  "deg v = deg_loop 1 v"

section \<open>The sparse equation matrix (block.go)\<close>

text \<open>
  \<^verbatim>\<open>sparseMatrix\<close> holds the coefficient rows and the right-hand sides in two parallel
  slices.  Rows are values here: every row of the matrix owns its byte slice in the
  source as well (a row is filled from the block of one received equation, and \<^verbatim>\<open>append\<close>
  on it reallocates or extends that slice only).
\<close>

record sparseMatrix =
  coeff :: "int list list"
  v :: "block list"

text \<open>Indexing a slice with a Go \<^verbatim>\<open>int\<close>: out of range is a panic.\<close>

definition index :: "'a list \<Rightarrow> int \<Rightarrow> go_panic + 'a" where
  "index xs i = (if 0 \<le> i \<and> i < int (length xs) then Inr (xs ! nat i) else Inl IndexOutOfRange)"

text \<open>
  The merge walk of \<^verbatim>\<open>xorRow\<close>.  The two list arguments are the unread suffixes
  \<^verbatim>\<open>coeffs[i:]\<close> and \<^verbatim>\<open>indices[j:]\<close>; when either is exhausted the loop ends and both
  remainders are appended.
\<close>

fun xorRow_loop :: "int list \<Rightarrow> int list \<Rightarrow> int list \<Rightarrow> int list" where
  "xorRow_loop newIndices (c # cs) (x # xs) =
     (if c = x then xorRow_loop newIndices cs xs
      else if c < x then xorRow_loop (newIndices @ [c]) cs (x # xs)
      else xorRow_loop (newIndices @ [x]) (c # cs) xs)"
| "xorRow_loop newIndices cs xs = newIndices @ cs @ xs"

definition xorRow :: "sparseMatrix \<Rightarrow> int \<Rightarrow> int list \<Rightarrow> block \<Rightarrow> go_panic + (int list \<times> block)" where
  "xorRow m s indices b =
     (case index (v m) s of
        Inl e \<Rightarrow> Inl e
      | Inr vs \<Rightarrow>
          (case index (coeff m) s of
             Inl e \<Rightarrow> Inl e
           | Inr coeffs \<Rightarrow> Inr (xorRow_loop [] coeffs indices, block_xor b vs)))"

text \<open>
  The reduction loop of \<^verbatim>\<open>addEquation\<close>.  Nothing in the source bounds the number of
  iterations, so the loop is a partial function: \<open>None\<close> is a loop that never ends,
  \<open>Some (Inl e)\<close> a panic, \<open>Some (Inr (m, components, b))\<close> the state at the loop's exit.
\<close>

partial_function (option) addEquation_loop ::
  "sparseMatrix \<Rightarrow> int list \<Rightarrow> block \<Rightarrow> (go_panic + (sparseMatrix \<times> int list \<times> block)) option" where
  "addEquation_loop m components b =
     (case components of
        [] \<Rightarrow> Some (Inr (m, components, b))
      | s # _ \<Rightarrow>
          (case index (coeff m) s of
             Inl e \<Rightarrow> Some (Inl e)
           | Inr row \<Rightarrow>
               if length row > 0 then
                 (if length components \<ge> length row then
                    (case xorRow m s components b of
                       Inl e \<Rightarrow> Some (Inl e)
                     | Inr cb \<Rightarrow> addEquation_loop m (fst cb) (snd cb))
                  else
                    (case index (v m) s of
                       Inl e \<Rightarrow> Some (Inl e)
                     | Inr vs \<Rightarrow>
                         addEquation_loop
                           (m\<lparr>coeff := (coeff m)[nat s := components], v := (v m)[nat s := b]\<rparr>)
                           row vs))
               else Some (Inr (m, components, b))))"

declare addEquation_loop.simps [code]

definition addEquation :: "sparseMatrix \<Rightarrow> int list \<Rightarrow> block \<Rightarrow> (go_panic + sparseMatrix) option" where
  "addEquation m components b =
     (case addEquation_loop m components b of
        None \<Rightarrow> None
      | Some (Inl e) \<Rightarrow> Some (Inl e)
      | Some (Inr (m', components', b')) \<Rightarrow>
          (case components' of
             [] \<Rightarrow> Some (Inr m')
           | c0 # _ \<Rightarrow>
               if 0 \<le> c0 \<and> c0 < int (length (coeff m')) \<and> c0 < int (length (v m'))
               then Some (Inr (m'\<lparr>coeff := (coeff m')[nat c0 := components'],
                                  v := (v m')[nat c0 := b']\<rparr>))
               else Some (Inl IndexOutOfRange)))"

text \<open>A run of \<^verbatim>\<open>addEquation\<close> calls, in order; it stops at the first call that fails.\<close>

fun addEquations :: "sparseMatrix \<Rightarrow> (int list \<times> block) list \<Rightarrow> (go_panic + sparseMatrix) option" where
  "addEquations m [] = Some (Inr m)"
| "addEquations m (eq # eqs) =
     (case addEquation m (fst eq) (snd eq) of
        None \<Rightarrow> None
      | Some (Inl e) \<Rightarrow> Some (Inl e)
      | Some (Inr m') \<Rightarrow> addEquations m' eqs)"

text \<open>The matrix the decoders start from: \<^verbatim>\<open>make([][]int, n)\<close> and \<^verbatim>\<open>make([]block, n)\<close>.\<close>

definition newSparseMatrix :: "nat \<Rightarrow> sparseMatrix" where
  "newSparseMatrix n = \<lparr>coeff = replicate n [], v = replicate n \<lparr>data = [], padding = 0\<rparr>\<rparr>"

definition determined :: "sparseMatrix \<Rightarrow> bool" where
  "determined m \<longleftrightarrow> (\<forall>r \<in> set (coeff m). length r \<noteq> 0)"

section \<open>Well-formed matrices\<close>

text \<open>
  The data-model invariant of a matrix with \<open>L\<close> rows: both slices have \<open>L\<close> entries, and
  every row is empty or starts with its own index, is strictly ascending and stays inside
  \<open>[0, L)\<close>.  An incoming equation is well formed when it is strictly ascending inside
  \<open>[0, L)\<close>.
\<close>

definition equation_ok :: "nat \<Rightarrow> int list \<Rightarrow> bool" where
  "equation_ok L c \<longleftrightarrow> sorted_wrt (<) c \<and> (\<forall>x \<in> set c. 0 \<le> x \<and> x < int L)"

definition row_ok :: "nat \<Rightarrow> nat \<Rightarrow> int list \<Rightarrow> bool" where
  "row_ok L i r \<longleftrightarrow> r = [] \<or> (hd r = int i \<and> equation_ok L r)"

definition triangular :: "nat \<Rightarrow> sparseMatrix \<Rightarrow> bool" where
  "triangular L m \<longleftrightarrow>
     length (coeff m) = L \<and> length (v m) = L \<and> (\<forall>i < L. row_ok L i (coeff m ! i))"

definition occupied :: "sparseMatrix \<Rightarrow> nat set" where
  "occupied m = {i. i < length (coeff m) \<and> coeff m ! i \<noteq> []}"

text \<open>
  Redundancy over GF(2): the index set of the equation is the XOR (the set of indices that
  occur an odd number of times) of a set \<open>T\<close> of rows of the matrix.
\<close>

definition combination :: "sparseMatrix \<Rightarrow> nat set \<Rightarrow> int set" where
  "combination m T = {x. odd (card {i \<in> T. x \<in> set (coeff m ! i)})}"

definition redundant :: "sparseMatrix \<Rightarrow> int list \<Rightarrow> bool" where
  "redundant m c \<longleftrightarrow> (\<exists>T. T \<subseteq> {..<length (coeff m)} \<and> set c = combination m T)"

text \<open>
  The progress measure of the reduction loop: the leading index of the incoming equation
  never decreases, and between two increases at most one swap happens.
\<close>

definition loop_measure :: "nat \<Rightarrow> sparseMatrix \<Rightarrow> int list \<Rightarrow> nat" where
  "loop_measure L m c =
     (case c of [] \<Rightarrow> 0
      | s # _ \<Rightarrow> 2 * (L - nat s) + (if length c < length (coeff m ! nat s) then 1 else 0))"

section \<open>Decoding: back-substitution and reassembly (block.go)\<close>

text \<open>
  The innermost loop of \<^verbatim>\<open>reduce\<close>, over \<^verbatim>\<open>k = 1 .. len(cj)-1\<close>.  The first argument is
  the unread suffix \<^verbatim>\<open>cj[k:]\<close>; \<^verbatim>\<open>ci\<close> and \<^verbatim>\<open>cj\<close> were read before the loop, the
  values are updated in place.  Reading \<^verbatim>\<open>ci[0]\<close> of an empty row is a panic.
\<close>

fun reduce_k :: "int list \<Rightarrow> int list \<Rightarrow> nat \<Rightarrow> nat \<Rightarrow> block list \<Rightarrow> go_panic + block list" where
  "reduce_k [] ci j i vs = Inr vs"
| "reduce_k (c # rest) ci j i vs =
     (case ci of
        [] \<Rightarrow> Inl IndexOutOfRange
      | ci0 # _ \<Rightarrow>
          if c = ci0
          then (if j < length vs \<and> i < length vs
                then reduce_k rest ci j i (vs[j := block_xor (vs ! j) (vs ! i)])
                else Inl IndexOutOfRange)
          else reduce_k rest ci j i vs)"

text \<open>The loop \<^verbatim>\<open>for j := 0; j < i; j++\<close>; here \<open>i < length (coeff m)\<close>.\<close>

function reduce_j :: "nat \<Rightarrow> nat \<Rightarrow> sparseMatrix \<Rightarrow> go_panic + sparseMatrix" where
  "reduce_j i j m =
     (if j < i
      then (case reduce_k (drop 1 (coeff m ! j)) (coeff m ! i) j i (v m) of
              Inl e \<Rightarrow> Inl e
            | Inr vs \<Rightarrow> reduce_j i (j + 1) (m\<lparr>v := vs\<rparr>))
      else Inr m)"
  by pat_completeness auto
termination
  by (relation "measure (\<lambda>(i, j, m). i - j)") auto

declare reduce_j.simps [simp del]

text \<open>
  The outer loop, \<^verbatim>\<open>i\<close> from \<^verbatim>\<open>len(m.coeff)-1\<close> down to 0; the argument counts the rows
  still to do.  \<^verbatim>\<open>m.coeff[i][0:1]\<close> of a row without elements is a panic (the rows of a
  matrix are nil or hold at least one index, so an empty row has capacity 0).
\<close>

fun reduce_i :: "nat \<Rightarrow> sparseMatrix \<Rightarrow> go_panic + sparseMatrix" where
  "reduce_i 0 m = Inr m"
| "reduce_i (Suc i) m =
     (case reduce_j i 0 m of
        Inl e \<Rightarrow> Inl e
      | Inr m1 \<Rightarrow>
          (case coeff m1 ! i of
             [] \<Rightarrow> Inl SliceBoundsOutOfRange
           | c0 # _ \<Rightarrow> reduce_i i (m1\<lparr>coeff := (coeff m1)[i := [c0]]\<rparr>)))"

definition reduce :: "sparseMatrix \<Rightarrow> go_panic + sparseMatrix" where
  "reduce m = reduce_i (length (coeff m)) m"

text \<open>
  \<^verbatim>\<open>data[0:n]\<close>.  Go allows \<open>n\<close> up to the capacity of the slice; capacities are not
  tracked here, so a bound beyond the length is the panic it is when the slice has no
  spare capacity.
\<close>

definition slice_to :: "byte list \<Rightarrow> int \<Rightarrow> go_panic + byte list" where
  "slice_to d n = (if 0 \<le> n \<and> n \<le> int (length d) then Inr (take (nat n) d) else Inl SliceBoundsOutOfRange)"

text \<open>
  One copying loop of \<^verbatim>\<open>reconstruct\<close>: \<^verbatim>\<open>for i := lo; i < hi; i++ { out = append(out,
  blocks[i].data[0:n]...) }\<close>.
\<close>

function copy_rows :: "block list \<Rightarrow> int \<Rightarrow> int \<Rightarrow> int \<Rightarrow> byte list \<Rightarrow> go_panic + byte list" where
  "copy_rows blocks n i hi out =
     (if i < hi
      then (case index blocks i of
              Inl e \<Rightarrow> Inl e
            | Inr b \<Rightarrow>
                (case slice_to (data b) n of
                   Inl e \<Rightarrow> Inl e
                 | Inr bytes \<Rightarrow> copy_rows blocks n (i + 1) hi (out @ bytes)))
      else Inr out)"
  by pat_completeness auto
termination
  by (relation "measure (\<lambda>(blocks, n, i, hi, out). nat (hi - i))") auto

declare copy_rows.simps [simp del]

text \<open>
  The body shared by \<^verbatim>\<open>sparseMatrix.reconstruct\<close> and by the copies of it written out in
  the Raptor decoders; \<^verbatim>\<open>make([]byte, totalLength)\<close> panics on a negative length.
\<close>

definition reconstruct_blocks :: "block list \<Rightarrow> int \<Rightarrow> int \<Rightarrow> int \<Rightarrow> int \<Rightarrow> int \<Rightarrow> go_panic + byte list" where
  "reconstruct_blocks blocks totalLength lenLong lenShort numLong numShort =
     (if totalLength < 0 then Inl MakeSliceLenOutOfRange
      else (case copy_rows blocks lenLong 0 numLong [] of
              Inl e \<Rightarrow> Inl e
            | Inr out \<Rightarrow> copy_rows blocks lenShort numLong (numLong + numShort) out))"

definition reconstruct :: "sparseMatrix \<Rightarrow> int \<Rightarrow> int \<Rightarrow> int \<Rightarrow> int \<Rightarrow> int \<Rightarrow> go_panic + byte list" where
  "reconstruct m totalLength lenLong lenShort numLong numShort =
     reconstruct_blocks (v m) totalLength lenLong lenShort numLong numShort"

section \<open>float64 arithmetic\<close>

text \<open>
  A finite \<^verbatim>\<open>float64\<close> is a rational \<open>n * 2 ^ e\<close> with \<open>\<bar>n\<bar> < 2 ^ 53\<close>, and every
  arithmetic operation returns the exact result rounded to the nearest such number, ties to
  the even significand.  The exponent range is left out: the operands met here are
  conversions of 64-bit integers, and quotients and products of those, far from overflow
  and underflow.
\<close>

definition pow2 :: "int \<Rightarrow> rat" where
  "pow2 e = (if 0 \<le> e then 2 ^ nat e else 1 / 2 ^ nat (- e))"

text \<open>For \<open>x > 0\<close>, the exponent \<open>e\<close> with \<open>2 ^ e \<le> x < 2 ^ (e + 1)\<close>.\<close>

definition binade :: "rat \<Rightarrow> int" where
  "binade x =
     (let a = fst (quotient_of x); b = snd (quotient_of x); d = bitlen a - bitlen b
      in if pow2 d \<le> x then d else d - 1)"

definition round_half_even :: "rat \<Rightarrow> int" where
  "round_half_even x =
     (let f = \<lfloor>x\<rfloor>; d = x - of_int f
      in if d < 1 / 2 then f else if 1 / 2 < d then f + 1 else if even f then f else f + 1)"

definition float64_round :: "rat \<Rightarrow> rat" where
  "float64_round x =
     (if x = 0 then 0
      else (let u = pow2 (binade \<bar>x\<bar> - 52) in of_int (round_half_even (x / u)) * u))"

text \<open>The conversion \<^verbatim>\<open>float64(i)\<close> and the quotient \<^verbatim>\<open>a / b\<close> of two finite floats, \<open>b \<noteq> 0\<close>.\<close>

definition float64_of_int :: "int \<Rightarrow> rat" where
  "float64_of_int i = float64_round (of_int i)"

definition float64_div :: "rat \<Rightarrow> rat \<Rightarrow> rat" where
  "float64_div a b = float64_round (a / b)"

section \<open>Partitioning (util.go)\<close>

text \<open>
  \<^verbatim>\<open>partition(i, j)\<close>.  \<^verbatim>\<open>math.Ceil\<close> and \<^verbatim>\<open>math.Floor\<close> are exact, and so is the
  conversion back to \<^verbatim>\<open>int\<close> of an integral float inside the 64-bit range.  With \<open>j = 0\<close>
  the quotient is an infinity or a NaN, whose conversion to \<^verbatim>\<open>int\<close> Go leaves to the
  implementation; the value written here is the one of amd64.
\<close>

definition float64_to_int_invalid :: int where
  "float64_to_int_invalid = - (2 ^ 63)"

definition partition_sizes :: "int \<Rightarrow> int \<Rightarrow> int \<times> int \<times> int \<times> int" where
  "partition_sizes i j =
     (let q = float64_div (float64_of_int i) (float64_of_int j);
          il = (if j = 0 then float64_to_int_invalid else \<lceil>q\<rceil>);
          is = (if j = 0 then float64_to_int_invalid else \<lfloor>q\<rfloor>);
          jl = i - is * j;
          js = j - jl
      in (if jl = 0 then 0 else il, if js = 0 then 0 else is, jl, js))"

section \<open>Encoding code blocks (fountain.go)\<close>

record LTBlock =
  BlockCode :: "64 word"
  Data :: "byte list"

text \<open>
  The loop of \<^verbatim>\<open>generateLubyTransformBlock\<close>.  The guard of the source checks the upper
  bound only; \<^verbatim>\<open>source[i]\<close> itself is a checked slice access.
\<close>

fun generateLubyTransformBlock_loop :: "block list \<Rightarrow> block \<Rightarrow> int list \<Rightarrow> go_panic + block" where
  "generateLubyTransformBlock_loop source symbol [] = Inr symbol"
| "generateLubyTransformBlock_loop source symbol (i # indices) =
     (if i < int (length source)
      then (case index source i of
              Inl e \<Rightarrow> Inl e
            | Inr b \<Rightarrow> generateLubyTransformBlock_loop source (block_xor symbol b) indices)
      else generateLubyTransformBlock_loop source symbol indices)"

definition generateLubyTransformBlock :: "block list \<Rightarrow> int list \<Rightarrow> go_panic + block" where
  "generateLubyTransformBlock source indices =
     generateLubyTransformBlock_loop source \<lparr>data = [], padding = 0\<rparr> indices"

text \<open>
  The \<^verbatim>\<open>Codec\<close> interface, as far as \<^verbatim>\<open>EncodeLTBlocks\<close> calls it.  A method may
  panic (\<open>Some (Inl e)\<close>) or, as the rejection sampling of the Luby and Online codecs can,
  loop forever (\<open>None\<close>).  Every implementation in the package reseeds its generator from
  the block id, so \<^verbatim>\<open>PickIndices\<close> is a function of the id.
\<close>

record codec =
  SourceBlocks :: int
  GenerateIntermediateBlocks :: "byte list \<Rightarrow> int \<Rightarrow> (go_panic + block list) option"
  PickIndices :: "64 word \<Rightarrow> (go_panic + int list) option"

text \<open>\<^verbatim>\<open>Data = make([]byte, b.length()); copy(Data, b.data)\<close>.\<close>

definition block_bytes :: "block \<Rightarrow> go_panic + byte list" where
  "block_bytes b =
     (if block_length b < 0 then Inl MakeSliceLenOutOfRange
      else Inr (take (nat (block_length b)) (data b)
                @ replicate (nat (block_length b) - length (data b)) 0))"

fun EncodeLTBlocks_loop :: "block list \<Rightarrow> codec \<Rightarrow> 64 word list \<Rightarrow> (go_panic + LTBlock list) option" where
  "EncodeLTBlocks_loop source c [] = Some (Inr [])"
| "EncodeLTBlocks_loop source c (bid # ids) =
     (case PickIndices c bid of
        None \<Rightarrow> None
      | Some (Inl e) \<Rightarrow> Some (Inl e)
      | Some (Inr indices) \<Rightarrow>
          (case generateLubyTransformBlock source indices of
             Inl e \<Rightarrow> Some (Inl e)
           | Inr b \<Rightarrow>
               (case block_bytes b of
                  Inl e \<Rightarrow> Some (Inl e)
                | Inr bytes \<Rightarrow>
                    (case EncodeLTBlocks_loop source c ids of
                       None \<Rightarrow> None
                     | Some (Inl e) \<Rightarrow> Some (Inl e)
                     | Some (Inr rest) \<Rightarrow> Some (Inr (\<lparr>BlockCode = bid, Data = bytes\<rparr> # rest))))))"

definition EncodeLTBlocks :: "byte list \<Rightarrow> 64 word list \<Rightarrow> codec \<Rightarrow> (go_panic + LTBlock list) option" where
  "EncodeLTBlocks message encodedBlockIDs c =
     (case GenerateIntermediateBlocks c message (SourceBlocks c) of
        None \<Rightarrow> None
      | Some (Inl e) \<Rightarrow> Some (Inl e)
      | Some (Inr source) \<Rightarrow> EncodeLTBlocks_loop source c encodedBlockIDs)"

section \<open>The decoders\<close>

text \<open>
  Each decoder holds the message length, the number of source blocks of its codec and the
  matrix; the other codec parameters are not read by \<^verbatim>\<open>Decode\<close>.  \<^verbatim>\<open>Decode\<close> returns a
  byte slice, and Go tells the nil slice from an empty one.
\<close>

record decoder_state =
  numSourceBlocks :: int
  messageLength :: int
  matrix :: sparseMatrix

datatype decoder =
    BinaryDecoder decoder_state
  | LubyDecoder decoder_state
  | OnlineDecoder decoder_state
  | RaptorDecoder decoder_state
  | RU10Decoder decoder_state

datatype decoded = Nil | Bytes "byte list"

fun decoder_matrix :: "decoder \<Rightarrow> sparseMatrix" where
  "decoder_matrix (BinaryDecoder d) = matrix d"
| "decoder_matrix (LubyDecoder d) = matrix d"
| "decoder_matrix (OnlineDecoder d) = matrix d"
| "decoder_matrix (RaptorDecoder d) = matrix d"
| "decoder_matrix (RU10Decoder d) = matrix d"

text \<open>
  \<^verbatim>\<open>binaryDecoder.Decode\<close>, \<^verbatim>\<open>lubyDecoder.Decode\<close> and \<^verbatim>\<open>onlineDecoder.Decode\<close> have the
  same body: the \<^verbatim>\<open>determined\<close> gate, \<^verbatim>\<open>reduce\<close>, \<^verbatim>\<open>partition\<close>, \<^verbatim>\<open>reconstruct\<close>.
  \<^verbatim>\<open>ru10Decoder.Decode\<close> writes the body of \<^verbatim>\<open>reconstruct\<close> out over the solved rows.
\<close>

definition Decode_matrix :: "decoder_state \<Rightarrow> go_panic + (decoded \<times> decoder_state)" where
  "Decode_matrix d =
     (if \<not> determined (matrix d) then Inr (Nil, d)
      else (case reduce (matrix d) of
              Inl e \<Rightarrow> Inl e
            | Inr m \<Rightarrow>
                (case partition_sizes (messageLength d) (numSourceBlocks d) of
                   (lenLong, lenShort, numLong, numShort) \<Rightarrow>
                     (case reconstruct m (messageLength d) lenLong lenShort numLong numShort of
                        Inl e \<Rightarrow> Inl e
                      | Inr out \<Rightarrow> Inr (Bytes out, d\<lparr>matrix := m\<rparr>)))))"

text \<open>
  \<^verbatim>\<open>ltEncode\<close> of the Raptor codec.  \<^verbatim>\<open>findLTIndices\<close> reads the systematic-index and random
  tables of RFC 5053, which are data of the package; it is a parameter here.
\<close>

type_synonym lt_indices = "int \<Rightarrow> 16 word \<Rightarrow> (go_panic + int list) option"

fun ltEncode_loop :: "block list \<Rightarrow> block \<Rightarrow> int list \<Rightarrow> go_panic + block" where
  "ltEncode_loop c result [] = Inr result"
| "ltEncode_loop c result (i # indices) =
     (case index c i of
        Inl e \<Rightarrow> Inl e
      | Inr b \<Rightarrow> ltEncode_loop c (block_xor result b) indices)"

definition ltEncode :: "lt_indices \<Rightarrow> int \<Rightarrow> 16 word \<Rightarrow> block list \<Rightarrow> (go_panic + block) option" where
  "ltEncode findLTIndices k x c =
     (case findLTIndices k x of
        None \<Rightarrow> None
      | Some (Inl e) \<Rightarrow> Some (Inl e)
      | Some (Inr indices) \<Rightarrow> Some (ltEncode_loop c \<lparr>data = [], padding = 0\<rparr> indices))"

text \<open>The loop \<^verbatim>\<open>for i := 0; i < K; i++ { source[i] = ltEncode(K, uint16(i), intermediate) }\<close>.\<close>

function raptor_sources ::
  "lt_indices \<Rightarrow> int \<Rightarrow> block list \<Rightarrow> int \<Rightarrow> block list \<Rightarrow> (go_panic + block list) option" where
  "raptor_sources findLTIndices k intermediate i source =
     (if i < k
      then (case ltEncode findLTIndices k (word_of_int i) intermediate of
              None \<Rightarrow> None
            | Some (Inl e) \<Rightarrow> Some (Inl e)
            | Some (Inr b) \<Rightarrow> raptor_sources findLTIndices k intermediate (i + 1) (source @ [b]))
      else Some (Inr source))"
  by pat_completeness auto
termination
  by (relation "measure (\<lambda>(f, k, c, i, source). nat (k - i))") auto

declare raptor_sources.simps [simp del]

definition Decode_raptor :: "lt_indices \<Rightarrow> decoder_state \<Rightarrow> (go_panic + (decoded \<times> decoder_state)) option" where
  "Decode_raptor findLTIndices d =
     (if \<not> determined (matrix d) then Some (Inr (Nil, d))
      else (case reduce (matrix d) of
              Inl e \<Rightarrow> Some (Inl e)
            | Inr m \<Rightarrow>
                if numSourceBlocks d < 0 then Some (Inl MakeSliceLenOutOfRange)
                else (case raptor_sources findLTIndices (numSourceBlocks d) (v m) 0 [] of
                        None \<Rightarrow> None
                      | Some (Inl e) \<Rightarrow> Some (Inl e)
                      | Some (Inr source) \<Rightarrow>
                          (case partition_sizes (messageLength d) (numSourceBlocks d) of
                             (lenLong, lenShort, numLong, numShort) \<Rightarrow>
                               (case reconstruct_blocks source (messageLength d)
                                       lenLong lenShort numLong numShort of
                                  Inl e \<Rightarrow> Some (Inl e)
                                | Inr out \<Rightarrow> Some (Inr (Bytes out, d\<lparr>matrix := m\<rparr>)))))))"

text \<open>\<^verbatim>\<open>Decode\<close> of the \<^verbatim>\<open>Decoder\<close> interface, dispatched on the variant.\<close>

fun Decode :: "lt_indices \<Rightarrow> decoder \<Rightarrow> (go_panic + (decoded \<times> decoder)) option" where
  "Decode f (BinaryDecoder d) = Some (map_sum id (map_prod id BinaryDecoder) (Decode_matrix d))"
| "Decode f (LubyDecoder d) = Some (map_sum id (map_prod id LubyDecoder) (Decode_matrix d))"
| "Decode f (OnlineDecoder d) = Some (map_sum id (map_prod id OnlineDecoder) (Decode_matrix d))"
| "Decode f (RaptorDecoder d) = map_option (map_sum id (map_prod id RaptorDecoder)) (Decode_raptor f d)"
| "Decode f (RU10Decoder d) = Some (map_sum id (map_prod id RU10Decoder) (Decode_matrix d))"

section \<open>Degree selection (util.go)\<close>

text \<open>
  \<^verbatim>\<open>sort.Search\<close> of the Go library: binary search for the smallest index in \<open>[0, n)\<close> at
  which \<open>f\<close> holds, \<open>n\<close> if there is none; \<^verbatim>\<open>sort.SearchFloat64s(a, x)\<close> searches with
  \<^verbatim>\<open>a[i] >= x\<close>.
\<close>

function search_loop :: "(nat \<Rightarrow> bool) \<Rightarrow> nat \<Rightarrow> nat \<Rightarrow> nat" where
  "search_loop f i j =
     (if i < j
      then (let h = (i + j) div 2 in if \<not> f h then search_loop f (h + 1) j else search_loop f i h)
      else i)"
  by pat_completeness auto
termination
  by (relation "measure (\<lambda>(f, i, j). j - i)") auto

declare search_loop.simps [simp del]

definition Search :: "nat \<Rightarrow> (nat \<Rightarrow> bool) \<Rightarrow> nat" where
  "Search n f = search_loop f 0 n"

definition SearchFloat64s :: "rat list \<Rightarrow> rat \<Rightarrow> nat" where
  "SearchFloat64s a x = Search (length a) (\<lambda>i. x \<le> a ! i)"

text \<open>
  \<^verbatim>\<open>pickDegree(random, cdf)\<close>; the first argument is the value \<^verbatim>\<open>random.Float64()\<close>
  returned.  A finite \<^verbatim>\<open>float64\<close> is a rational, and comparing floats compares them.
\<close>

definition pickDegree :: "rat \<Rightarrow> rat list \<Rightarrow> go_panic + int" where
  "pickDegree r cdf =
     (let d = int (SearchFloat64s cdf r)
      in (case index cdf d of
            Inl e \<Rightarrow> Inl e
          | Inr c \<Rightarrow>
              if r < c then Inr d
              else if d < int (length cdf) - 1 then Inr (d + 1)
              else Inr (int (length cdf) - 1)))"

text \<open>
  \<^verbatim>\<open>solitonDistribution(n)\<close>: the CDF is built in \<^verbatim>\<open>float64\<close>, each sum, product and
  quotient rounded.  The list argument of the loop is the slice filled so far,
  \<^verbatim>\<open>cdf[0..i-1]\<close>.
\<close>

definition float64_add :: "rat \<Rightarrow> rat \<Rightarrow> rat" where
  "float64_add a b = float64_round (a + b)"

definition float64_mul :: "rat \<Rightarrow> rat \<Rightarrow> rat" where
  "float64_mul a b = float64_round (a * b)"

function solitonDistribution_loop :: "int \<Rightarrow> int \<Rightarrow> rat list \<Rightarrow> rat list" where
  "solitonDistribution_loop n i cdf =
     (if i < n + 1
      then solitonDistribution_loop n (i + 1)
             (cdf @ [float64_add (last cdf)
                       (float64_div 1 (float64_mul (float64_of_int i) (float64_of_int (i - 1))))])
      else cdf)"
  by pat_completeness auto
termination
  by (relation "measure (\<lambda>(n, i, cdf). nat (n + 1 - i))") auto

declare solitonDistribution_loop.simps [simp del]

definition solitonDistribution :: "int \<Rightarrow> go_panic + rat list" where
  "solitonDistribution n =
     (if n + 1 < 0 then Inl MakeSliceLenOutOfRange
      else if n + 1 \<le> 1 then Inl IndexOutOfRange
      else Inr (solitonDistribution_loop n 2 [0, float64_div 1 (float64_of_int n)]))"

section \<open>64-bit integers\<close>

text \<open>
  The value of a Go \<^verbatim>\<open>int\<close> expression on a 64-bit platform: the exact result, wrapped
  into \<open>[-2 ^ 63, 2 ^ 63)\<close>.
\<close>

definition wrap64 :: "int \<Rightarrow> int" where
  "wrap64 x = (x + 2 ^ 63) mod 2 ^ 64 - 2 ^ 63"

text \<open>Go's \<^verbatim>\<open>/\<close> and \<^verbatim>\<open>%\<close> on integers truncate towards zero and panic on a zero divisor.\<close>

definition go_quot :: "int \<Rightarrow> int \<Rightarrow> go_panic + int" where
  "go_quot x y = (if y = 0 then Inl DivideByZero else Inr (sgn x * sgn y * (\<bar>x\<bar> div \<bar>y\<bar>)))"

definition go_rem :: "int \<Rightarrow> int \<Rightarrow> go_panic + int" where
  "go_rem x y =
     (if y = 0 then Inl DivideByZero else Inr (x - y * (sgn x * sgn y * (\<bar>x\<bar> div \<bar>y\<bar>))))"

section \<open>Primes (util.go)\<close>

text \<open>
  The table \<^verbatim>\<open>smallPrimes\<close> is data of the package; the functions that read it take it as
  their first argument.
\<close>

fun isPrime :: "int list \<Rightarrow> int \<Rightarrow> go_panic + bool" where
  "isPrime [] x = Inr True"
| "isPrime (p # smallPrimes) x =
     (if x < wrap64 (p * p) then Inr True
      else (case go_rem x p of
              Inl e \<Rightarrow> Inl e
            | Inr r \<Rightarrow> if r = 0 then Inr False else isPrime smallPrimes x))"

text \<open>The loop \<^verbatim>\<open>for !isPrime(x) { x++ }\<close>.\<close>

partial_function (option) smallestPrime_loop :: "int list \<Rightarrow> int \<Rightarrow> (go_panic + int) option" where
  "smallestPrime_loop smallPrimes x =
     (case isPrime smallPrimes x of
        Inl e \<Rightarrow> Some (Inl e)
      | Inr b \<Rightarrow> if b then Some (Inr x) else smallestPrime_loop smallPrimes (wrap64 (x + 1)))"

declare smallestPrime_loop.simps [code]

definition smallestPrimeGreaterOrEqual :: "int list \<Rightarrow> int \<Rightarrow> (go_panic + int) option" where
  "smallestPrimeGreaterOrEqual smallPrimes x =
     (case index smallPrimes (int (length smallPrimes) - 1) of
        Inl e \<Rightarrow> Some (Inl e)
      | Inr largest \<Rightarrow>
          if x \<le> largest
          then Some (index smallPrimes
                 (int (Search (length smallPrimes) (\<lambda>i. x \<le> smallPrimes ! i))))
          else smallestPrime_loop smallPrimes x)"

section \<open>Binomial coefficients (util.go)\<close>

text \<open>
  The inner loop of \<^verbatim>\<open>choose\<close>: from the last numerator down, the first one that the
  denominator \<open>d\<close> divides is divided by it, and the loop breaks.  The \<open>nat\<close> argument is
  \<open>i + 1\<close>.
\<close>

fun choose_cancel :: "int \<Rightarrow> int list \<Rightarrow> nat \<Rightarrow> go_panic + int list" where
  "choose_cancel d numerator 0 = Inr numerator"
| "choose_cancel d numerator (Suc i) =
     (case go_rem (numerator ! i) d of
        Inl e \<Rightarrow> Inl e
      | Inr r \<Rightarrow>
          if r = 0
          then (case go_quot (numerator ! i) d of
                  Inl e \<Rightarrow> Inl e
                | Inr q \<Rightarrow> Inr (numerator[i := q]))
          else choose_cancel d numerator i)"

text \<open>
  The outer loop, \<open>j\<close> from \<^verbatim>\<open>len(denominator)-1\<close> down to 1; the \<open>nat\<close> argument is \<open>j\<close>.
  A denominator is read before the loop overwrites it with 1, so the list of denominators
  is the one before the loop.
\<close>

fun choose_reduce :: "int list \<Rightarrow> int list \<Rightarrow> nat \<Rightarrow> go_panic + int list" where
  "choose_reduce denominator numerator 0 = Inr numerator"
| "choose_reduce denominator numerator (Suc j) =
     (case choose_cancel (denominator ! Suc j) numerator (length numerator) of
        Inl e \<Rightarrow> Inl e
      | Inr numerator' \<Rightarrow> choose_reduce denominator numerator' j)"

text \<open>
  \<^verbatim>\<open>choose(n, k)\<close>.  The first loop fills \<^verbatim>\<open>numerator\<close> with \<open>k+1 .. n\<close> and
  \<^verbatim>\<open>denominator\<close> with \<open>1 .. n-k\<close> (the bounds of that loop are taken without wrap-around);
  \<^verbatim>\<open>sort.SearchInts\<close> is \<^verbatim>\<open>sort.Search\<close> with the test \<^verbatim>\<open>numerator[i] >= x\<close>; the product
  at the end is a product of \<^verbatim>\<open>int\<close>s.
\<close>

definition choose_go :: "int \<Rightarrow> int \<Rightarrow> go_panic + int" where
  "choose_go n k0 =
     (case go_quot n 2 of
        Inl e \<Rightarrow> Inl e
      | Inr half \<Rightarrow>
          (let k = (if half < k0 then wrap64 (n - k0) else k0) in
           if wrap64 (n - k) < 0 then Inl MakeSliceLenOutOfRange
           else
             (let numerator = [k + 1..n];
                  denominator = [1..n - k];
                  z = (if 0 < length denominator
                       then Search (length numerator) (\<lambda>i. last denominator \<le> numerator ! i)
                       else 0)
              in if 0 < z \<and> length numerator < z + 1 then Inl SliceBoundsOutOfRange
                 else
                   (let numerator1 = (if 0 < z then drop (z + 1) numerator else numerator);
                        denominator1 = (if 0 < z then take (length denominator - z - 1) denominator
                                        else denominator)
                    in (case choose_reduce denominator1 numerator1 (length denominator1 - 1) of
                          Inl e \<Rightarrow> Inl e
                        | Inr numerator2 \<Rightarrow> Inr (foldl (\<lambda>f i. wrap64 (f * i)) 1 numerator2))))))"

definition centerBinomial :: "int \<Rightarrow> go_panic + int" where
  "centerBinomial x = (case go_quot x 2 of Inl e \<Rightarrow> Inl e | Inr half \<Rightarrow> choose_go x half)"

section \<open>Intermediate symbols (raptor codec)\<close>

text \<open>
  \<^verbatim>\<open>math.Sqrt\<close> and \<^verbatim>\<open>math.Log\<close> belong to the Go library.  \<^verbatim>\<open>intermediateSymbols\<close> uses
  them only to pick the values from which its two loops count upwards, and takes them here
  as a parameter.
\<close>

record go_math =
  Sqrt :: "rat \<Rightarrow> rat"
  Log :: "rat \<Rightarrow> rat"

text \<open>The loop \<^verbatim>\<open>for (x * (x - 1)) < (2 * k) { x++ }\<close>.\<close>

partial_function (option) intermediateSymbols_x :: "int \<Rightarrow> int \<Rightarrow> int option" where
  "intermediateSymbols_x k x =
     (if wrap64 (x * wrap64 (x - 1)) < wrap64 (2 * k)
      then intermediateSymbols_x k (wrap64 (x + 1))
      else Some x)"

declare intermediateSymbols_x.simps [code]

text \<open>The loop \<^verbatim>\<open>for centerBinomial(h) < k+s { h++ }\<close>; the second argument is \<open>k + s\<close>.\<close>

partial_function (option) intermediateSymbols_h :: "int \<Rightarrow> int \<Rightarrow> (go_panic + int) option" where
  "intermediateSymbols_h ks h =
     (case centerBinomial h of
        Inl e \<Rightarrow> Some (Inl e)
      | Inr c \<Rightarrow> if c < ks then intermediateSymbols_h ks (wrap64 (h + 1)) else Some (Inr h))"

declare intermediateSymbols_h.simps [code]

definition intermediateSymbols ::
  "int list \<Rightarrow> go_math \<Rightarrow> int \<Rightarrow> (go_panic + int \<times> int \<times> int) option" where
  "intermediateSymbols smallPrimes gm k =
     (let x0 = \<lfloor>Sqrt gm (float64_mul 2 (float64_of_int k))\<rfloor>;
          x1 = (if x0 < 1 then 1 else x0)
      in (case intermediateSymbols_x k x1 of
            None \<Rightarrow> None
          | Some x \<Rightarrow>
              (let s0 = wrap64 (\<lceil>float64_mul (float64_round (1 / 100)) (float64_of_int k)\<rceil> + x)
               in (case smallestPrimeGreaterOrEqual smallPrimes s0 of
                     None \<Rightarrow> None
                   | Some (Inl e) \<Rightarrow> Some (Inl e)
                   | Some (Inr s) \<Rightarrow>
                       (let h0 = \<lfloor>float64_div
                                    (Log gm (float64_add (float64_of_int s) (float64_of_int k)))
                                    (Log gm 4)\<rfloor>
                        in (case intermediateSymbols_h (wrap64 (k + s)) h0 of
                              None \<Rightarrow> None
                            | Some (Inl e) \<Rightarrow> Some (Inl e)
                            | Some (Inr h) \<Rightarrow> Some (Inr (wrap64 (wrap64 (k + s) + h), s, h))))))))"

section \<open>Properties of blocks\<close>

lemma length_xor_loop [simp]: "length (xor_loop i bd ad) = length bd"
  by (induction i bd ad rule: xor_loop.induct) (subst xor_loop.simps, simp)

lemma length_data_block_xor:
  "length (data (block_xor b a)) = max (length (data b)) (length (data a))"
  by (auto simp add: block_xor_def Let_def)

lemma padding_block_xor:
  "padding (block_xor b a) =
     (if length (data b) < length (data a)
      then (if padding b > int (length (data a)) - int (length (data b))
            then padding b - (int (length (data a)) - int (length (data b))) else 0)
      else padding b)"
  by (simp add: block_xor_def Let_def)


text \<open>
  C4 (as amended).  For a block \<open>a\<close> with the non-negative padding of the data model
  and any block \<open>b\<close>: after \<open>a.xor(b)\<close> the logical length of \<open>a\<close> is at least its length
  before the call and at least the number of data bytes of \<open>b\<close>, and the data of \<open>a\<close> has
  exactly the larger of the two data lengths.  The padding of \<open>b\<close> does not count: padding
  bytes are notional zeros and are never copied.
\<close>

theorem block_xor_length:
  assumes "0 \<le> padding a"
  shows "max (block_length a) (int (length (data b))) \<le> block_length (block_xor a b)
         \<and> length (data (block_xor a b)) = max (length (data a)) (length (data b))"
  using assms by (auto simp: block_length_def padding_block_xor length_data_block_xor)

theorem block_xor_length_witness:
  "0 \<le> padding \<lparr>data = [1], padding = 4\<rparr>
   \<and> max (block_length \<lparr>data = [1], padding = 4\<rparr>) (int (length [0, 1, 0, 2, 3, 7 :: byte]))
       \<le> block_length (block_xor \<lparr>data = [1], padding = 4\<rparr> \<lparr>data = [0, 1, 0, 2, 3, 7], padding = 0\<rparr>)
   \<and> length (data (block_xor \<lparr>data = [1], padding = 4\<rparr> \<lparr>data = [0, 1, 0, 2, 3, 7], padding = 0\<rparr>)) = 6"
  using block_xor_length [of "\<lparr>data = [1], padding = 4\<rparr>" "\<lparr>data = [0, 1, 0, 2, 3, 7], padding = 0\<rparr>"]
  by simp

text \<open>
  C4 as stated fails: XORing the padded short block \<open>(data = [1, 2], padding = 1)\<close> into
  the empty block leaves a block of length 2, below the length 3 of the argument.
\<close>

theorem block_xor_length_counterexample:
  "\<not> max (block_length \<lparr>data = [], padding = 0\<rparr>) (block_length \<lparr>data = [1, 2], padding = 1\<rparr>)
       \<le> block_length (block_xor \<lparr>data = [], padding = 0\<rparr> \<lparr>data = [1, 2], padding = 1\<rparr>)"
  by (simp add: block_length_def padding_block_xor length_data_block_xor)

section \<open>Properties of the degree function\<close>

lemma deg_cases:
  "deg x = (if x < 10241 then 1 else if x < 491582 then 2 else if x < 712794 then 3
            else if x < 831695 then 4 else if x < 948446 then 10
            else if x < 1032189 then 11 else 40)"
  by (simp add: deg_def deg_loop.simps deg_f_def deg_d_def)

text \<open>
  C9.  For every \<^verbatim>\<open>uint32\<close> the degree is one of 1, 2, 3, 4, 10, 11, 40, never 0, and
  it is 40 from 1032189 on, also beyond \<open>2 ^ 20\<close>.
\<close>

theorem deg_range:
  "deg x \<in> {1, 2, 3, 4, 10, 11, 40} \<and> deg x \<noteq> 0 \<and> (1032189 \<le> x \<longrightarrow> deg x = 40)"
proof -
  have "deg x = 40" if "1032189 \<le> x"
  proof -
    have "\<not> x < 1032189" using that by (simp add: not_less)
    moreover have "\<not> x < 948446" "\<not> x < 831695" "\<not> x < 712794" "\<not> x < 491582" "\<not> x < 10241"
      using that by (simp_all add: word_less_nat_alt word_le_nat_alt)
    ultimately show ?thesis by (simp add: deg_cases)
  qed
  then show ?thesis by (auto simp: deg_cases)
qed

theorem deg_range_witness:
  "(1032189 :: 32 word) \<le> 1048576 \<and> deg 1048576 = 40 \<and> deg 1048576 \<in> {1, 2, 3, 4, 10, 11, 40}"
  using deg_range [of 1048576] by simp

section \<open>Properties of float64 rounding\<close>

lemma pow2_powi: "pow2 e = 2 powi e"
  by (simp add: pow2_def power_int_def field_simps)

lemma pow2_pos [simp]: "0 < pow2 e"
  by (simp add: pow2_powi)

lemma pow2_add: "pow2 (a + b) = pow2 a * pow2 b"
  by (simp add: pow2_powi power_int_add)

lemma pow2_int [simp]: "pow2 (int n) = 2 ^ n"
  by (simp add: pow2_def)

lemma pow2_numeral [simp]: "pow2 (numeral n) = 2 ^ numeral n"
  by (simp add: pow2_def)

lemma pow2_mono: "a \<le> b \<Longrightarrow> pow2 a \<le> pow2 b"
  by (simp add: pow2_powi power_int_increasing)

lemma pow2_less_cancel: "pow2 a < pow2 b \<Longrightarrow> a < b"
  using pow2_mono [of b a] by (cases "a < b") auto

lemma pow2_Suc: "pow2 (e + 1) = 2 * pow2 e"
  using pow2_add [of e 1] by (simp add: pow2_def)

lemma binade_bounds:
  assumes "0 < x"
  shows "pow2 (binade x) \<le> x \<and> x < pow2 (binade x + 1)"
proof -
  obtain a b where q: "quotient_of x = (a, b)" by (cases "quotient_of x") auto
  then have b: "0 < b" and x: "x = of_int a / of_int b"
    by (auto simp: quotient_of_denom_pos quotient_of_div)
  have a: "0 < a" using assms x b by (simp add: zero_less_divide_iff)
  define d where "d = bitlen a - bitlen b"
  have la: "1 \<le> bitlen a" and lb: "1 \<le> bitlen b"
    using a b by (auto simp: bitlen_alt_def)
  have ba: "(2::int) ^ nat (bitlen a - 1) \<le> a" "a < 2 ^ nat (bitlen a)"
    using bitlen_bounds [OF a] by auto
  have bb: "(2::int) ^ nat (bitlen b - 1) \<le> b" "b < 2 ^ nat (bitlen b)"
    using bitlen_bounds [OF b] by auto
  have ra: "pow2 (bitlen a - 1) \<le> of_int a" "of_int a < pow2 (bitlen a)"
  proof -
    have "(of_int ((2::int) ^ nat (bitlen a - 1)) :: rat) \<le> of_int a"
      using ba(1) by (simp only: of_int_le_iff)
    then show "pow2 (bitlen a - 1) \<le> of_int a" using la by (simp add: pow2_def)
    have "(of_int a :: rat) < of_int ((2::int) ^ nat (bitlen a))"
      using ba(2) by (simp only: of_int_less_iff)
    then show "of_int a < pow2 (bitlen a)" using la by (simp add: pow2_def)
  qed
  have rb: "pow2 (bitlen b - 1) \<le> of_int b" "of_int b < pow2 (bitlen b)"
  proof -
    have "(of_int ((2::int) ^ nat (bitlen b - 1)) :: rat) \<le> of_int b"
      using bb(1) by (simp only: of_int_le_iff)
    then show "pow2 (bitlen b - 1) \<le> of_int b" using lb by (simp add: pow2_def)
    have "(of_int b :: rat) < of_int ((2::int) ^ nat (bitlen b))"
      using bb(2) by (simp only: of_int_less_iff)
    then show "of_int b < pow2 (bitlen b)" using lb by (simp add: pow2_def)
  qed
  have bpos: "(0::rat) < of_int b" using b by simp
  have up: "x < pow2 (d + 1)"
  proof -
    have "of_int a < pow2 (d + 1) * pow2 (bitlen b - 1)"
      using ra(2) by (simp add: pow2_add [symmetric] d_def)
    also have "\<dots> \<le> pow2 (d + 1) * of_int b"
      using rb(1) by (simp add: mult_left_mono less_imp_le)
    finally show ?thesis using bpos by (simp add: x pos_divide_less_eq)
  qed
  have lo: "pow2 (d - 1) \<le> x"
  proof -
    have "pow2 (d - 1) * of_int b \<le> pow2 (d - 1) * pow2 (bitlen b)"
      using rb(2) by (simp add: mult_left_mono less_imp_le)
    also have "\<dots> = pow2 (bitlen a - 1)" by (simp add: pow2_add [symmetric] d_def)
    also have "\<dots> \<le> of_int a" by (rule ra(1))
    finally show ?thesis using bpos by (simp add: x pos_le_divide_eq)
  qed
  have bin: "binade x = (if pow2 d \<le> x then d else d - 1)"
    by (simp add: binade_def q d_def Let_def)
  show ?thesis
  proof (cases "pow2 d \<le> x")
    case True
    then show ?thesis using up bin by simp
  next
    case False
    then show ?thesis using lo bin by simp
  qed
qed

lemma binade_unique:
  assumes "pow2 e \<le> x" "x < pow2 (e + 1)"
  shows "binade x = e"
proof -
  have x: "0 < x" using assms(1) pow2_pos [of e] by linarith
  note b = binade_bounds [OF x]
  have "pow2 e < pow2 (binade x + 1)" using assms(1) b by linarith
  then have 1: "e < binade x + 1" by (rule pow2_less_cancel)
  have "pow2 (binade x) < pow2 (e + 1)" using assms(2) b by linarith
  then have 2: "binade x < e + 1" by (rule pow2_less_cancel)
  show ?thesis using 1 2 by simp
qed

lemma round_half_even_error: "\<bar>of_int (round_half_even y) - y\<bar> \<le> 1 / 2"
proof -
  have "of_int \<lfloor>y\<rfloor> \<le> y" "y < of_int \<lfloor>y\<rfloor> + 1" by linarith+
  then show ?thesis by (auto simp: round_half_even_def Let_def)
qed

lemma round_half_even_of_int [simp]: "round_half_even (of_int n) = n"
  by (simp add: round_half_even_def)

lemma round_half_even_ge:
  assumes "of_int n \<le> y"
  shows "n \<le> round_half_even y"
proof -
  have "n \<le> \<lfloor>y\<rfloor>" using assms by (simp add: le_floor_iff)
  then show ?thesis by (auto simp: round_half_even_def Let_def)
qed

lemma float64_round_pos:
  "0 < x \<Longrightarrow>
     float64_round x = of_int (round_half_even (x / pow2 (binade x - 52))) * pow2 (binade x - 52)"
  by (simp add: float64_round_def Let_def)

lemma float64_round_error:
  assumes "0 < x"
  shows "\<bar>float64_round x - x\<bar> \<le> x / 2 ^ 53"
proof -
  define u where "u = pow2 (binade x - 52)"
  have u: "0 < u" by (simp add: u_def)
  have fl: "float64_round x = of_int (round_half_even (x / u)) * u"
    using assms by (simp add: float64_round_pos u_def)
  have "\<bar>of_int (round_half_even (x / u)) - x / u\<bar> * u \<le> 1 / 2 * u"
    using round_half_even_error [of "x / u"] u by (intro mult_right_mono) auto
  moreover have "\<bar>of_int (round_half_even (x / u)) - x / u\<bar> * u
      = \<bar>of_int (round_half_even (x / u)) * u - x\<bar>"
  proof -
    have "\<bar>of_int (round_half_even (x / u)) - x / u\<bar> * u
      = \<bar>(of_int (round_half_even (x / u)) - x / u) * u\<bar>"
      using u by (simp add: abs_mult)
    also have "(of_int (round_half_even (x / u)) - x / u) * u
      = of_int (round_half_even (x / u)) * u - x"
      using u by (simp add: field_simps)
    finally show ?thesis .
  qed
  ultimately have 1: "\<bar>float64_round x - x\<bar> \<le> u / 2" by (simp add: fl)
  have "pow2 (binade x) = u * 2 ^ 52"
    using pow2_add [of "binade x - 52" 52] by (simp add: u_def)
  then have "u * 2 ^ 52 \<le> x" using binade_bounds [OF assms] by simp
  then have "u / 2 \<le> x / 2 ^ 53" by (simp add: field_simps)
  then show ?thesis using 1 by linarith
qed

lemma float64_round_zero [simp]: "float64_round 0 = 0"
  by (simp add: float64_round_def)

lemma float64_round_exact_int:
  assumes "0 \<le> n" "n \<le> 2 ^ 53"
  shows "float64_round (of_int n) = of_int n"
proof (cases "n = 0")
  case True
  then show ?thesis by simp
next
  case False
  then have n: "0 < n" using assms by simp
  then have x: "(0::rat) < of_int n" by simp
  define e where "e = binade (of_int n)"
  define u where "u = pow2 (e - 52)"
  have fl: "float64_round (of_int n) = of_int (round_half_even (of_int n / u)) * u"
    using x by (simp add: float64_round_pos u_def e_def)
  have b: "pow2 e \<le> of_int n" "of_int n < pow2 (e + 1)"
    using binade_bounds [OF x] by (auto simp: e_def)
  have "(of_int n :: rat) \<le> of_int (2 ^ 53)" using assms(2) by (simp only: of_int_le_iff)
  then have n53: "(of_int n :: rat) \<le> pow2 53" by simp
  then have "pow2 e < pow2 54" using b(1) by simp
  have e53: "e \<le> 53"
  proof -
    have "pow2 e < pow2 (53 + 1)" using b(1) n53 by (simp add: pow2_Suc)
    then have "e < 53 + 1" by (rule pow2_less_cancel)
    then show ?thesis by simp
  qed
  have "\<exists>k. of_int n / u = of_int k"
  proof (cases "e \<le> 52")
    case True
    then have "u = 1 / 2 ^ nat (52 - e)" by (auto simp: u_def pow2_def)
    then have "of_int n / u = of_int (n * 2 ^ nat (52 - e))" by simp
    then show ?thesis by blast
  next
    case False
    then have e: "e = 53" using e53 by simp
    then have "(of_int n :: rat) = 2 ^ 53" using b(1) n53 by simp
    moreover have "u = 2" by (simp add: u_def e pow2_def)
    ultimately have "of_int n / u = of_int (2 ^ 52)" by simp
    then show ?thesis by blast
  qed
  then obtain k where k: "of_int n / u = of_int k" by blast
  have "0 < u" by (simp add: u_def)
  then have "of_int k * u = (of_int n :: rat)" using k by (simp add: field_simps)
  then show ?thesis by (simp add: fl k)
qed

lemma float64_round_ge_2_53:
  assumes "2 ^ 53 \<le> x"
  shows "2 ^ 53 \<le> float64_round x"
proof -
  have x: "0 < x" using assms by (simp add: less_le_trans [of 0 "2 ^ 53"])
  define e where "e = binade x"
  define u where "u = pow2 (e - 52)"
  have u: "0 < u" by (simp add: u_def)
  have fl: "float64_round x = of_int (round_half_even (x / u)) * u"
    using x by (simp add: float64_round_pos u_def e_def)
  have b: "pow2 e \<le> x" "x < pow2 (e + 1)"
    using binade_bounds [OF x] by (auto simp: e_def)
  have "pow2 53 < pow2 (e + 1)" using assms b(2) by simp
  then have e: "53 \<le> e" using pow2_less_cancel by fastforce
  have pe: "pow2 e = u * 2 ^ 52"
    using pow2_add [of "e - 52" 52] by (simp add: u_def)
  then have "of_int (2 ^ 52) \<le> x / u" using b(1) u by (simp add: field_simps)
  then have "2 ^ 52 \<le> round_half_even (x / u)" by (rule round_half_even_ge)
  then have "(of_int (2 ^ 52) :: rat) \<le> of_int (round_half_even (x / u))"
    by (simp only: of_int_le_iff)
  then have "2 ^ 52 * u \<le> of_int (round_half_even (x / u)) * u"
    using u by (intro mult_right_mono) auto
  then have "pow2 e \<le> float64_round x" by (simp add: fl pe mult.commute)
  moreover have "pow2 53 \<le> pow2 e" using e by (rule pow2_mono)
  ultimately show ?thesis by simp
qed


lemma float64_of_int_exact: "0 \<le> n \<Longrightarrow> n \<le> 2 ^ 53 \<Longrightarrow> float64_of_int n = of_int n"
  by (simp add: float64_of_int_def float64_round_exact_int)

lemma float_quotient_small_divisor:
  assumes a: "0 < a" "a < 2 ^ 53" and p: "0 < p" "p \<le> 2 ^ 53"
  shows "\<lfloor>float64_div (float64_of_int a) (float64_of_int p)\<rfloor> = a div p
       \<and> \<lceil>float64_div (float64_of_int a) (float64_of_int p)\<rceil> = \<lceil>(of_int a :: rat) / of_int p\<rceil>"
proof -
  define x :: rat where "x = of_int a / of_int p"
  define r where "r = float64_round x"
  have q: "float64_div (float64_of_int a) (float64_of_int p) = r"
    using a p by (simp add: float64_div_def float64_of_int_exact r_def x_def)
  define n m where "n = a div p" and "m = a mod p"
  have am: "a = n * p + m" and m: "0 \<le> m" "m < p" and n0: "0 \<le> n"
    using a p by (auto simp: n_def m_def pos_imp_zdiv_nonneg_iff)
  have "n * 1 \<le> n * p" using n0 p by (intro mult_left_mono) auto
  then have n: "0 \<le> n" "n \<le> a" using n0 am m by auto
  have P: "(0::rat) < of_int p" and A: "(0::rat) < of_int a" using a p by auto
  have A53: "(of_int a :: rat) < 2 ^ 53"
  proof -
    have "(of_int a :: rat) < of_int (2 ^ 53)" using a(2) by (simp only: of_int_less_iff)
    then show ?thesis by simp
  qed
  have xeq: "x = of_int n + of_int m / of_int p"
    using P by (simp add: x_def am field_simps)
  show ?thesis
  proof (cases "m = 0")
    case True
    then have "x = of_int n" by (simp add: xeq)
    moreover have "n \<le> 2 ^ 53" using n(2) a(2) by linarith
    ultimately have "r = of_int n" using n(1) by (simp add: r_def float64_round_exact_int)
    then show ?thesis using \<open>x = of_int n\<close> by (simp add: q n_def x_def [symmetric])
  next
    case False
    then have m1: "1 \<le> m" "m + 1 \<le> p" using m by auto
    have M1: "(1::rat) \<le> of_int m" "(of_int m :: rat) + 1 \<le> of_int p"
    proof -
      have "(of_int 1 :: rat) \<le> of_int m" using m1(1) by (simp only: of_int_le_iff)
      then show "(1::rat) \<le> of_int m" by simp
      have "(of_int (m + 1) :: rat) \<le> of_int p" using m1(2) by (simp only: of_int_le_iff)
      then show "(of_int m :: rat) + 1 \<le> of_int p" by simp
    qed
    have x0: "0 < x" using A P by (simp add: x_def)
    have err: "\<bar>r - x\<bar> \<le> x / 2 ^ 53"
      unfolding r_def by (rule float64_round_error [OF x0])
    have small: "x / 2 ^ 53 < 1 / of_int p"
      using A53 P by (simp add: x_def field_simps)
    have lo: "of_int n + 1 / of_int p \<le> x"
      using M1(1) P by (simp add: xeq field_simps)
    have hi: "x + 1 / of_int p \<le> of_int n + 1"
      using M1(2) P by (simp add: xeq field_simps)
    have rlo: "of_int n < r" and rhi: "r < of_int n + 1"
      using err small lo hi by linarith+
    have inv: "(0::rat) < 1 / of_int p" using P by simp
    have xlo: "of_int n < x" and xhi: "x \<le> of_int n + 1"
      using lo hi inv by linarith+
    have "\<lfloor>r\<rfloor> = n" using rlo rhi by (intro floor_unique) auto
    moreover have "\<lceil>r\<rceil> = n + 1" using rlo rhi by (intro ceiling_unique) auto
    moreover have "\<lceil>x\<rceil> = n + 1" using xlo xhi by (intro ceiling_unique) auto
    ultimately show ?thesis by (simp add: q n_def x_def [symmetric])
  qed
qed

lemma float_quotient_large_divisor:
  assumes a: "0 < a" "a < 2 ^ 53" and p: "2 ^ 53 < p"
  shows "\<lfloor>float64_div (float64_of_int a) (float64_of_int p)\<rfloor> = a div p
       \<and> \<lceil>float64_div (float64_of_int a) (float64_of_int p)\<rceil> = \<lceil>(of_int a :: rat) / of_int p\<rceil>"
proof -
  define p' where "p' = float64_round (of_int p)"
  define x :: rat where "x = of_int a / p'"
  define r where "r = float64_round x"
  have "float64_round (of_int a) = of_int a"
    using a by (intro float64_round_exact_int) auto
  then have q: "float64_div (float64_of_int a) (float64_of_int p) = r"
    by (simp add: float64_div_def r_def x_def p'_def float64_of_int_def)
  have "(of_int (2 ^ 53) :: rat) \<le> of_int p" using p by (simp only: of_int_le_iff; simp)
  then have "(2::rat) ^ 53 \<le> of_int p" by simp
  then have p53: "2 ^ 53 \<le> p'" unfolding p'_def by (rule float64_round_ge_2_53)
  have "(of_int a :: rat) \<le> of_int (2 ^ 53 - 1)" using a(2) by (simp only: of_int_le_iff; simp)
  then have A: "(of_int a :: rat) \<le> 2 ^ 53 - 1" by simp
  have A0: "(0::rat) < of_int a" using a by simp
  have p0: "0 < p'" using p53 by (simp add: less_le_trans [of 0 "2 ^ 53"])
  have x0: "0 < x" using A0 p0 by (simp add: x_def)
  have "of_int a \<le> (1 - 1 / 2 ^ 53) * p'"
  proof -
    have "(1 - 1 / 2 ^ 53) * (2 ^ 53 :: rat) \<le> (1 - 1 / 2 ^ 53) * p'"
      using p53 by (intro mult_left_mono) auto
    then show ?thesis using A by simp
  qed
  then have x1: "x \<le> 1 - 1 / 2 ^ 53" using p0 by (simp add: x_def pos_divide_le_eq)
  have err: "\<bar>r - x\<bar> \<le> x / 2 ^ 53"
    unfolding r_def by (rule float64_round_error [OF x0])
  have "x / 2 ^ 53 < x" using x0 by simp
  then have r0: "0 < r" using err by linarith
  have "x + x / 2 ^ 53 \<le> (1 - 1 / 2 ^ 53) + (1 - 1 / 2 ^ 53) / 2 ^ 53"
    using x1 by (intro add_mono divide_right_mono) auto
  also have "\<dots> < 1" by simp
  finally have r1: "r < 1" using err by linarith
  have "\<lfloor>r\<rfloor> = 0" using r0 r1 by (intro floor_unique) auto
  moreover have "\<lceil>r\<rceil> = 1" using r0 r1 by (intro ceiling_unique) auto
  moreover have "a div p = 0" using a p by (simp add: div_pos_pos_trivial)
  moreover have "\<lceil>(of_int a :: rat) / of_int p\<rceil> = 1"
  proof (intro ceiling_unique)
    have P: "(0::rat) < of_int p" using p by simp
    show "of_int 1 - 1 < (of_int a :: rat) / of_int p" using A0 P by simp
    have "(of_int a :: rat) \<le> of_int p" using a p by (simp only: of_int_le_iff; simp)
    then show "(of_int a :: rat) / of_int p \<le> of_int 1" using P by simp
  qed
  ultimately show ?thesis by (simp add: q)
qed

lemma float_quotient_floor_ceiling:
  assumes "0 \<le> a" "a < 2 ^ 53" "0 < p"
  shows "\<lfloor>float64_div (float64_of_int a) (float64_of_int p)\<rfloor> = a div p
       \<and> \<lceil>float64_div (float64_of_int a) (float64_of_int p)\<rceil> = \<lceil>(of_int a :: rat) / of_int p\<rceil>"
proof (cases "a = 0")
  case True
  then show ?thesis by (simp add: float64_div_def float64_of_int_def)
next
  case False
  then have "0 < a" using assms by simp
  then show ?thesis
    using float_quotient_small_divisor [of a p] float_quotient_large_divisor [of a p] assms
    by (cases "p \<le> 2 ^ 53") auto
qed

section \<open>Properties of partition\<close>

lemma ceiling_quotient:
  assumes "0 < p" "tot mod p \<noteq> 0"
  shows "\<lceil>(of_int tot :: rat) / of_int p\<rceil> = tot div p + 1"
proof -
  have "\<lceil>(of_int tot :: rat) / of_int p\<rceil> = - (- tot div p)"
    by (rule ceiling_divide_eq_div)
  also have "\<dots> = tot div p + 1"
    using assms by (simp add: zdiv_zminus1_eq_if)
  finally show ?thesis .
qed

lemma partition_sizes_unfold:
  assumes "0 \<le> tot" "tot < 2 ^ 53" "0 < p"
  shows "partition_sizes tot p =
           (if tot mod p = 0 then 0 else tot div p + 1, tot div p, tot mod p, p - tot mod p)"
proof -
  note q = float_quotient_floor_ceiling [OF assms]
  have "tot - tot div p * p = tot mod p"
    by (simp add: minus_div_mult_eq_mod)
  moreover have "p - tot mod p \<noteq> 0"
    using pos_mod_bound [OF assms(3), of tot] by simp
  ultimately show ?thesis
    using assms(3) q ceiling_quotient [OF assms(3), of tot]
    by (simp add: partition_sizes_def Let_def)
qed

text \<open>
  C5 (as amended).  For \<open>0 \<le> total < 2 ^ 53\<close> and \<open>p > 0\<close> the four results are the ones
  of the claim, they add up to \<open>total\<close> and to \<open>p\<close>, and the three examples hold.  Below
  \<open>2 ^ 53\<close> the \<^verbatim>\<open>float64\<close> quotient of the source has the floor and the ceiling of the
  exact quotient.
\<close>

theorem partition_sizes_spec:
  assumes "0 \<le> tot" "tot < 2 ^ 53" "0 < p"
  shows "(case partition_sizes tot p of
            (lenLong, lenShort, numLong, numShort) \<Rightarrow>
              numLong = tot - \<lfloor>(of_int tot :: rat) / of_int p\<rfloor> * p
              \<and> numShort = p - numLong
              \<and> lenLong = (if numLong = 0 then 0 else \<lceil>(of_int tot :: rat) / of_int p\<rceil>)
              \<and> lenShort = (if numShort = 0 then 0 else \<lfloor>(of_int tot :: rat) / of_int p\<rfloor>)
              \<and> numLong * lenLong + numShort * lenShort = tot
              \<and> numLong + numShort = p)
         \<and> partition_sizes 100 9 = (12, 11, 1, 8)
         \<and> partition_sizes 100 10 = (0, 10, 0, 10)
         \<and> partition_sizes 100 11 = (10, 9, 1, 10)"
proof -
  have fl: "\<lfloor>(of_int tot :: rat) / of_int p\<rfloor> = tot div p"
    by (rule floor_divide_of_int_eq)
  have ne: "p - tot mod p \<noteq> 0"
    using pos_mod_bound [OF assms(3), of tot] by simp
  have md: "tot - tot div p * p = tot mod p"
    by (simp add: minus_div_mult_eq_mod)
  have sum: "tot mod p * (if tot mod p = 0 then 0 else tot div p + 1)
               + (p - tot mod p) * (tot div p) = tot"
  proof -
    have "tot mod p * (tot div p + 1) + (p - tot mod p) * (tot div p)
            = p * (tot div p) + tot mod p"
      by (simp add: algebra_simps)
    then show ?thesis by auto
  qed
  have general: "(case partition_sizes tot p of
            (lenLong, lenShort, numLong, numShort) \<Rightarrow>
              numLong = tot - \<lfloor>(of_int tot :: rat) / of_int p\<rfloor> * p
              \<and> numShort = p - numLong
              \<and> lenLong = (if numLong = 0 then 0 else \<lceil>(of_int tot :: rat) / of_int p\<rceil>)
              \<and> lenShort = (if numShort = 0 then 0 else \<lfloor>(of_int tot :: rat) / of_int p\<rfloor>)
              \<and> numLong * lenLong + numShort * lenShort = tot
              \<and> numLong + numShort = p)"
    unfolding partition_sizes_unfold [OF assms] fl
    using ne md sum ceiling_quotient [OF assms(3), of tot] by simp
  have "partition_sizes 100 9 = (12, 11, 1, 8)"
    by (simp add: partition_sizes_unfold)
  moreover have "partition_sizes 100 10 = (0, 10, 0, 10)"
    by (simp add: partition_sizes_unfold)
  moreover have "partition_sizes 100 11 = (10, 9, 1, 10)"
    by (simp add: partition_sizes_unfold)
  ultimately show ?thesis using general by simp
qed

theorem partition_sizes_spec_witness:
  "(0::int) \<le> 26 \<and> (26::int) < 2 ^ 53 \<and> (0::int) < 4
   \<and> partition_sizes 26 4 = (7, 6, 2, 2)
   \<and> (case partition_sizes 26 4 of
         (lenLong, lenShort, numLong, numShort) \<Rightarrow>
           numLong = 26 - \<lfloor>(of_int 26 :: rat) / of_int 4\<rfloor> * 4
           \<and> numShort = 4 - numLong
           \<and> lenLong = (if numLong = 0 then 0 else \<lceil>(of_int 26 :: rat) / of_int 4\<rceil>)
           \<and> lenShort = (if numShort = 0 then 0 else \<lfloor>(of_int 26 :: rat) / of_int 4\<rfloor>)
           \<and> numLong * lenLong + numShort * lenShort = 26
           \<and> numLong + numShort = 4)"
proof -
  have h: "(0::int) \<le> 26" "(26::int) < 2 ^ 53" "(0::int) < 4"
    by simp_all
  have v: "partition_sizes 26 4 = (7, 6, 2, 2)"
    by code_simp
  note g = partition_sizes_spec [OF h, THEN conjunct1]
  show ?thesis
    by (intro conjI) (fact h v g)+
qed

text \<open>
  C5 as stated fails beyond the 53 bits of a \<^verbatim>\<open>float64\<close> significand:
  \<^verbatim>\<open>float64(2^53 + 1)\<close> is \<open>2 ^ 53\<close>, so \<^verbatim>\<open>partition(2^53 + 1, 1)\<close> returns one long block
  of \<open>2 ^ 53\<close> bytes, one byte short of the total.
\<close>

theorem partition_sizes_counterexample:
  "partition_sizes (2 ^ 53 + 1) 1 = (2 ^ 53, 0, 1, 0)
   \<and> fst (partition_sizes (2 ^ 53 + 1) 1) \<noteq> \<lceil>(of_int (2 ^ 53 + 1) :: rat) / of_int 1\<rceil>
   \<and> (case partition_sizes (2 ^ 53 + 1) 1 of
         (lenLong, lenShort, numLong, numShort) \<Rightarrow>
           numLong * lenLong + numShort * lenShort \<noteq> 2 ^ 53 + 1)"
proof -
  have "partition_sizes (2 ^ 53 + 1) 1 = (2 ^ 53, 0, 1, 0)"
    by code_simp
  then show ?thesis by simp
qed


section \<open>Properties of the sparse matrix\<close>

lemma xorRow_loop_acc: "xorRow_loop acc cs xs = acc @ xorRow_loop [] cs xs"
proof (induction "length cs + length xs" arbitrary: acc cs xs rule: less_induct)
  case less
  show ?case
  proof (cases cs)
    case Nil
    then show ?thesis by simp
  next
    case (Cons c cs')
    note cs = this
    show ?thesis
    proof (cases xs)
      case Nil
      then show ?thesis using cs by simp
    next
      case (Cons x xs')
      have 1: "xorRow_loop a cs' xs' = a @ xorRow_loop [] cs' xs'" for a
        using less [of cs' xs' a] cs Cons by simp
      have 2: "xorRow_loop a cs' (x # xs') = a @ xorRow_loop [] cs' (x # xs')" for a
        using less [of cs' "x # xs'" a] cs Cons by simp
      have 3: "xorRow_loop a (c # cs') xs' = a @ xorRow_loop [] (c # cs') xs'" for a
        using less [of "c # cs'" xs' a] cs Cons by simp
      show ?thesis
        unfolding cs Cons xorRow_loop.simps
        using 1 [of acc] 2 [of "acc @ [c]"] 2 [of "[c]"] 3 [of "acc @ [x]"] 3 [of "[x]"]
        by simp
    qed
  qed
qed

lemma xorRow_loop_Cons:
  "xorRow_loop [] (c # cs) (x # xs) =
     (if c = x then xorRow_loop [] cs xs
      else if c < x then c # xorRow_loop [] cs (x # xs)
      else x # xorRow_loop [] (c # cs) xs)"
  using xorRow_loop_acc [of "[c]" cs "x # xs"] xorRow_loop_acc [of "[x]" "c # cs" xs]
  by simp

lemma xorRow_loop_Nil [simp]: "xorRow_loop [] [] xs = xs" "xorRow_loop [] cs [] = cs"
  by (cases xs; simp) (cases cs; simp)

lemma set_xorRow_loop:
  "sorted_wrt (<) cs \<Longrightarrow> sorted_wrt (<) xs \<Longrightarrow>
     set (xorRow_loop [] cs xs) = sym_diff (set cs) (set xs)"
proof (induction "length cs + length xs" arbitrary: cs xs rule: less_induct)
  case less
  show ?case
  proof (cases cs)
    case Nil
    then show ?thesis by simp
  next
    case (Cons c cs')
    note cs = this
    show ?thesis
    proof (cases xs)
      case Nil
      then show ?thesis by simp
    next
      case (Cons x xs')
      have c: "\<forall>y \<in> set cs'. c < y" and x: "\<forall>y \<in> set xs'. x < y"
        and scs: "sorted_wrt (<) cs'" and sxs: "sorted_wrt (<) xs'"
        using less(2,3) cs Cons by auto
      consider "c = x" | "c < x" | "x < c" by linarith
      then show ?thesis
      proof cases
        case 1
        have "set (xorRow_loop [] cs' xs') = sym_diff (set cs') (set xs')"
          using less(1) [of cs' xs'] scs sxs cs Cons by simp
        moreover have "c \<notin> set cs'" "c \<notin> set xs'"
          using c x 1 by auto
        ultimately show ?thesis
          unfolding cs Cons xorRow_loop_Cons using 1 by auto
      next
        case 2
        have "set (xorRow_loop [] cs' (x # xs')) = sym_diff (set cs') (set (x # xs'))"
          using less(1) [of cs' "x # xs'"] scs less(3) cs Cons by simp
        moreover have "c \<notin> set cs'" "c \<notin> set (x # xs')"
          using c x 2 by auto
        ultimately show ?thesis
          unfolding cs Cons xorRow_loop_Cons using 2 by auto
      next
        case 3
        have "set (xorRow_loop [] (c # cs') xs') = sym_diff (set (c # cs')) (set xs')"
          using less(1) [of "c # cs'" xs'] sxs less(2) cs Cons by simp
        moreover have "x \<notin> set xs'" "x \<notin> set (c # cs')"
          using c x 3 by auto
        ultimately show ?thesis
          unfolding cs Cons xorRow_loop_Cons using 3 by auto
      qed
    qed
  qed
qed

lemma sorted_xorRow_loop:
  "sorted_wrt (<) cs \<Longrightarrow> sorted_wrt (<) xs \<Longrightarrow> sorted_wrt (<) (xorRow_loop [] cs xs)"
proof (induction "length cs + length xs" arbitrary: cs xs rule: less_induct)
  case less
  show ?case
  proof (cases cs)
    case Nil
    then show ?thesis using less by simp
  next
    case (Cons c cs')
    note cs = this
    show ?thesis
    proof (cases xs)
      case Nil
      then show ?thesis using less by simp
    next
      case (Cons x xs')
      have c: "\<forall>y \<in> set cs'. c < y" and x: "\<forall>y \<in> set xs'. x < y"
        and scs: "sorted_wrt (<) cs'" and sxs: "sorted_wrt (<) xs'"
        using less(2,3) cs Cons by auto
      consider "c = x" | "c < x" | "x < c" by linarith
      then show ?thesis
      proof cases
        case 1
        have "sorted_wrt (<) (xorRow_loop [] cs' xs')"
          using less(1) [of cs' xs'] scs sxs cs Cons by simp
        then show ?thesis
          unfolding cs Cons xorRow_loop_Cons using 1 by simp
      next
        case 2
        have "sorted_wrt (<) (xorRow_loop [] cs' (x # xs'))"
          using less(1) [of cs' "x # xs'"] scs less(3) cs Cons by simp
        moreover have "set (xorRow_loop [] cs' (x # xs')) \<subseteq> set cs' \<union> set (x # xs')"
          using set_xorRow_loop [OF scs, of "x # xs'"] less(3) Cons by auto
        then have "\<forall>y \<in> set (xorRow_loop [] cs' (x # xs')). c < y"
          using c x 2 by fastforce
        ultimately show ?thesis
          unfolding cs Cons xorRow_loop_Cons using 2 by simp
      next
        case 3
        have "sorted_wrt (<) (xorRow_loop [] (c # cs') xs')"
          using less(1) [of "c # cs'" xs'] sxs less(2) cs Cons by simp
        moreover have "set (xorRow_loop [] (c # cs') xs') \<subseteq> set (c # cs') \<union> set xs'"
          using set_xorRow_loop [OF _ sxs, of "c # cs'"] less(2) cs by auto
        then have "\<forall>y \<in> set (xorRow_loop [] (c # cs') xs'). x < y"
          using c x 3 by fastforce
        ultimately show ?thesis
          unfolding cs Cons xorRow_loop_Cons using 3 by simp
      qed
    qed
  qed
qed


lemma index_Inr: "0 \<le> i \<Longrightarrow> i < int (length xs) \<Longrightarrow> index xs i = Inr (xs ! nat i)"
  by (simp add: index_def)

lemma card_filter_split:
  assumes "finite T" "s \<in> T"
  shows "card {i \<in> T. P i} = (if P s then 1 else 0) + card {i \<in> T - {s}. P i}"
proof -
  have fin: "finite {i \<in> T - {s}. P i}" using assms by simp
  have notin: "s \<notin> {i \<in> T - {s}. P i}" by simp
  show ?thesis
  proof (cases "P s")
    case True
    then have "{i \<in> T. P i} = insert s {i \<in> T - {s}. P i}" using assms by auto
    then show ?thesis using True fin notin by simp
  next
    case False
    then have "{i \<in> T. P i} = {i \<in> T - {s}. P i}" using assms by auto
    then show ?thesis using False by simp
  qed
qed

lemma combination_toggle:
  assumes "finite T"
  shows "combination m (sym_diff T {s}) = sym_diff (combination m T) (set (coeff m ! s))"
proof (rule set_eqI)
  fix x
  let ?P = "\<lambda>i. x \<in> set (coeff m ! i)"
  show "x \<in> combination m (sym_diff T {s}) \<longleftrightarrow> x \<in> sym_diff (combination m T) (set (coeff m ! s))"
  proof (cases "s \<in> T")
    case True
    then have eq: "sym_diff T {s} = T - {s}" by auto
    have "card {i \<in> T. ?P i} = (if ?P s then 1 else 0) + card {i \<in> T - {s}. ?P i}"
      using card_filter_split [OF assms True] .
    then show ?thesis unfolding eq combination_def by (cases "?P s") auto
  next
    case False
    then have eq: "sym_diff T {s} = insert s T" and eq2: "insert s T - {s} = T" by auto
    have "card {i \<in> insert s T. ?P i} = (if ?P s then 1 else 0) + card {i \<in> insert s T - {s}. ?P i}"
      using card_filter_split [of "insert s T" s ?P] assms by simp
    then show ?thesis unfolding eq eq2 combination_def by (cases "?P s") auto
  qed
qed

lemma row_elements_ge:
  assumes "row_ok L i r" "x \<in> set r"
  shows "int i \<le> x"
proof -
  from assms obtain r' where r: "r = int i # r'" and s: "sorted_wrt (<) r"
    by (cases r) (auto simp: row_ok_def equation_ok_def)
  then show ?thesis using assms(2) by auto
qed

lemma row_head_mem:
  assumes "row_ok L i r" "r \<noteq> []"
  shows "int i \<in> set r"
  using assms by (cases r) (auto simp: row_ok_def)

lemma combination_head:
  assumes tri: "triangular L m" and T: "T \<subseteq> {..<L}"
    and c: "set (s # cs) = combination m T" and srt: "sorted_wrt (<) (s # cs)"
  shows "0 \<le> s \<and> nat s \<in> T \<and> coeff m ! nat s \<noteq> []"
proof -
  have finT: "finite T" using T finite_subset by blast
  have rows: "row_ok L i (coeff m ! i)" if "i \<in> T" for i
    using tri T that by (auto simp: triangular_def)
  define Occ where "Occ = {i \<in> T. coeff m ! i \<noteq> []}"
  have finO: "finite Occ" using finT by (simp add: Occ_def)
  have "s \<in> combination m T" using c by auto
  then have "odd (card {i \<in> T. s \<in> set (coeff m ! i)})" by (simp add: combination_def)
  then have "{i \<in> T. s \<in> set (coeff m ! i)} \<noteq> {}" by (metis card.empty even_zero)
  then obtain i where i: "i \<in> T" "s \<in> set (coeff m ! i)" by auto
  then have iO: "i \<in> Occ" by (auto simp: Occ_def)
  define t where "t = Min Occ"
  have tO: "t \<in> Occ"
    unfolding t_def using finO iO by (intro Min_in) auto
  have tmin: "t \<le> j" if "j \<in> Occ" for j
    unfolding t_def using finO that by (rule Min_le)
  have tT: "t \<in> T" and tne: "coeff m ! t \<noteq> []" using tO by (auto simp: Occ_def)
  have "{j \<in> T. int t \<in> set (coeff m ! j)} = {t}"
  proof (rule set_eqI)
    fix j
    show "j \<in> {j \<in> T. int t \<in> set (coeff m ! j)} \<longleftrightarrow> j \<in> {t}"
    proof
      assume "j \<in> {j \<in> T. int t \<in> set (coeff m ! j)}"
      then have j: "j \<in> T" "int t \<in> set (coeff m ! j)" by auto
      then have "j \<in> Occ" by (auto simp: Occ_def)
      then have "t \<le> j" using tmin by simp
      moreover have "int j \<le> int t" using row_elements_ge [OF rows [OF j(1)] j(2)] .
      ultimately show "j \<in> {t}" by simp
    next
      assume "j \<in> {t}"
      then show "j \<in> {j \<in> T. int t \<in> set (coeff m ! j)}"
        using tT row_head_mem [OF rows [OF tT] tne] by simp
    qed
  qed
  then have "int t \<in> combination m T" by (simp add: combination_def)
  then have "int t \<in> set (s # cs)" using c by simp
  then have "s \<le> int t" using srt by auto
  moreover have "int i \<le> s" using row_elements_ge [OF rows [OF i(1)] i(2)] .
  moreover have "t \<le> i" using tmin iO by simp
  ultimately have "s = int t" by simp
  then show ?thesis using tT tne by simp
qed

lemma combination_swap:
  assumes finT: "finite T" and s: "s \<in> T" and len: "s < length (coeff m)"
    and c: "set c = combination m T" and m': "coeff m' = (coeff m)[s := c]"
  shows "combination m' T = set (coeff m ! s)"
proof (rule set_eqI)
  fix x
  let ?P = "\<lambda>i. x \<in> set (coeff m ! i)" and ?P' = "\<lambda>i. x \<in> set (coeff m' ! i)"
  have same: "{i \<in> T - {s}. ?P' i} = {i \<in> T - {s}. ?P i}"
    using m' by auto
  have 1: "card {i \<in> T. ?P' i} = (if x \<in> set c then 1 else 0) + card {i \<in> T - {s}. ?P i}"
    using card_filter_split [OF finT s, of ?P'] same m' len by simp
  have 2: "card {i \<in> T. ?P i} = (if ?P s then 1 else 0) + card {i \<in> T - {s}. ?P i}"
    using card_filter_split [OF finT s, of ?P] .
  have 3: "x \<in> set c \<longleftrightarrow> odd (card {i \<in> T. ?P i})"
    using c by (simp add: combination_def)
  show "x \<in> combination m' T \<longleftrightarrow> x \<in> set (coeff m ! s)"
    unfolding combination_def mem_Collect_eq 1 using 2 3 by (cases "?P s") auto
qed


lemma equation_ok_Cons:
  "equation_ok L (s # cs) \<Longrightarrow> 0 \<le> s \<and> s < int L \<and> nat s < L \<and> (\<forall>y \<in> set cs. s < y)"
  by (auto simp: equation_ok_def)

lemma addEquation_loop_xor_step:
  assumes tri: "triangular L m" and ok: "equation_ok L (s # cs)"
    and row: "coeff m ! nat s \<noteq> []" and len: "length (coeff m ! nat s) \<le> length (s # cs)"
  defines "c' \<equiv> xorRow_loop [] (coeff m ! nat s) (s # cs)"
  shows "addEquation_loop m (s # cs) b = addEquation_loop m c' (block_xor b (v m ! nat s))"
    and "equation_ok L c'"
    and "set c' = sym_diff (set (coeff m ! nat s)) (set (s # cs))"
    and "\<forall>y \<in> set c'. s < y"
proof -
  have s: "0 \<le> s" "s < int L" "nat s < L" and gt: "\<forall>y \<in> set cs. s < y"
    using equation_ok_Cons [OF ok] by auto
  have lens: "length (coeff m) = L" "length (v m) = L"
    using tri by (auto simp: triangular_def)
  have rok: "row_ok L (nat s) (coeff m ! nat s)"
    using tri s by (auto simp: triangular_def)
  then have rowok: "equation_ok L (coeff m ! nat s)" and hd: "hd (coeff m ! nat s) = s"
    using row s by (auto simp: row_ok_def)
  show "addEquation_loop m (s # cs) b = addEquation_loop m c' (block_xor b (v m ! nat s))"
    by (subst addEquation_loop.simps)
       (use s lens row len in \<open>simp add: index_Inr xorRow_def c'_def\<close>)
  have srt: "sorted_wrt (<) (coeff m ! nat s)" "sorted_wrt (<) (s # cs)"
    using rowok ok by (auto simp: equation_ok_def)
  show set: "set c' = sym_diff (set (coeff m ! nat s)) (set (s # cs))"
    unfolding c'_def by (rule set_xorRow_loop [OF srt])
  show "equation_ok L c'"
    unfolding equation_ok_def
  proof
    show "sorted_wrt (<) c'" unfolding c'_def by (rule sorted_xorRow_loop [OF srt])
    show "\<forall>x \<in> set c'. 0 \<le> x \<and> x < int L"
      using set rowok ok by (auto simp: equation_ok_def)
  qed
  have "s \<in> set (coeff m ! nat s)"
    using row_head_mem [OF rok row] s by simp
  moreover have "\<forall>y \<in> set (coeff m ! nat s). s \<le> y"
    using row_elements_ge [OF rok] s by auto
  ultimately show "\<forall>y \<in> set c'. s < y"
    using set gt by (auto simp: order.strict_iff_order)
qed

lemma addEquation_loop_swap_step:
  fixes b :: block
  assumes tri: "triangular L m" and ok: "equation_ok L (s # cs)"
    and len: "length (s # cs) < length (coeff m ! nat s)"
  defines "m' \<equiv> m\<lparr>coeff := (coeff m)[nat s := s # cs], v := (v m)[nat s := b]\<rparr>"
  shows "addEquation_loop m (s # cs) b = addEquation_loop m' (coeff m ! nat s) (v m ! nat s)"
    and "triangular L m'"
    and "equation_ok L (coeff m ! nat s)"
    and "hd (coeff m ! nat s) = s"
    and "occupied m' = occupied m"
proof -
  have s: "0 \<le> s" "s < int L" "nat s < L"
    using equation_ok_Cons [OF ok] by auto
  have lens: "length (coeff m) = L" "length (v m) = L"
    using tri by (auto simp: triangular_def)
  have row: "coeff m ! nat s \<noteq> []" using len by auto
  have rok: "row_ok L (nat s) (coeff m ! nat s)"
    using tri s by (auto simp: triangular_def)
  then show "equation_ok L (coeff m ! nat s)" and "hd (coeff m ! nat s) = s"
    using row s by (auto simp: row_ok_def)
  show "addEquation_loop m (s # cs) b = addEquation_loop m' (coeff m ! nat s) (v m ! nat s)"
    by (subst addEquation_loop.simps)
       (use s lens row len in \<open>simp add: index_Inr m'_def\<close>)
  show "triangular L m'"
    unfolding triangular_def
  proof (intro conjI allI impI)
    show "length (coeff m') = L" "length (v m') = L" using lens by (simp_all add: m'_def)
    fix i assume "i < L"
    then show "row_ok L i (coeff m' ! i)"
      using tri ok s lens by (cases "i = nat s") (auto simp: m'_def triangular_def row_ok_def)
  qed
  show "occupied m' = occupied m"
    using row s lens by (auto simp: occupied_def m'_def nth_list_update)
qed

lemma redundant_xor_step:
  assumes tri: "triangular L m" and s: "nat s < L" "0 \<le> s"
    and c': "set c' = sym_diff (set (coeff m ! nat s)) (set c)"
    and red: "redundant m c"
  shows "redundant m c'"
proof -
  have len: "length (coeff m) = L" using tri by (simp add: triangular_def)
  from red obtain T where T: "T \<subseteq> {..<L}" "set c = combination m T"
    by (auto simp: redundant_def len)
  have "finite T" using T(1) finite_subset by blast
  then have "combination m (sym_diff T {nat s}) = sym_diff (combination m T) (set (coeff m ! nat s))"
    by (rule combination_toggle)
  then have "set c' = combination m (sym_diff T {nat s})"
    using c' T(2) by auto
  moreover have "sym_diff T {nat s} \<subseteq> {..<L}" using T(1) s by auto
  ultimately show ?thesis unfolding redundant_def len by blast
qed

lemma redundant_swap_step:
  assumes tri: "triangular L m" and ok: "equation_ok L (s # cs)"
    and m': "coeff m' = (coeff m)[nat s := s # cs]"
    and red: "redundant m (s # cs)"
  shows "redundant m' (coeff m ! nat s)"
proof -
  have len: "length (coeff m) = L" using tri by (simp add: triangular_def)
  from red obtain T where T: "T \<subseteq> {..<L}" "set (s # cs) = combination m T"
    by (auto simp: redundant_def len)
  have finT: "finite T" using T(1) finite_subset by blast
  have srt: "sorted_wrt (<) (s # cs)" using ok by (simp add: equation_ok_def)
  have sT: "nat s \<in> T" using combination_head [OF tri T srt] by simp
  then have "nat s < length (coeff m)" using T(1) len by auto
  then have "combination m' T = set (coeff m ! nat s)"
    using combination_swap [OF finT sT _ T(2) m'] by simp
  then show ?thesis unfolding redundant_def using T(1) len m' by auto
qed

lemma addEquation_loop_correct:
  assumes "triangular L m" "equation_ok L c"
  shows "\<exists>m' c' b'. addEquation_loop m c b = Some (Inr (m', c', b')) \<and>
           triangular L m' \<and> equation_ok L c' \<and>
           (c' \<noteq> [] \<longrightarrow> coeff m' ! nat (hd c') = []) \<and>
           occupied m' = occupied m \<and>
           (redundant m c \<longrightarrow> redundant m' c')"
  using assms
proof (induction "loop_measure L m c" arbitrary: m c b rule: less_induct)
  case less
  note tri = less.prems(1) and ok = less.prems(2)
  show ?case
  proof (cases c)
    case Nil
    have "addEquation_loop m [] b = Some (Inr (m, [], b))"
      by (subst addEquation_loop.simps) simp
    then show ?thesis using Nil tri ok by auto
  next
    case (Cons s cs)
    have s: "0 \<le> s" "s < int L" "nat s < L"
      using equation_ok_Cons ok Cons by auto
    have lens: "length (coeff m) = L" "length (v m) = L"
      using tri by (auto simp: triangular_def)
    show ?thesis
    proof (cases "coeff m ! nat s = []")
      case True
      have "addEquation_loop m (s # cs) b = Some (Inr (m, s # cs, b))"
        by (subst addEquation_loop.simps) (use s lens True in \<open>simp add: index_Inr\<close>)
      then show ?thesis using Cons tri ok True by auto
    next
      case False
      note row = this
      show ?thesis
      proof (cases "length (coeff m ! nat s) \<le> length (s # cs)")
        case True
        define c' where "c' = xorRow_loop [] (coeff m ! nat s) (s # cs)"
        note step = addEquation_loop_xor_step [OF tri ok [unfolded Cons] row True, folded c'_def]
        have "loop_measure L m c' < loop_measure L m c"
        proof (cases c')
          case Nil
          then show ?thesis using s Cons by (simp add: loop_measure_def)
        next
          case (Cons s' cs')
          then have "s < s'" "s' < int L"
            using step(4) step(2) by (auto simp: equation_ok_def)
          then have "nat s < nat s'" "nat s' < L" using s by auto
          then show ?thesis using Cons \<open>c = s # cs\<close> by (auto simp: loop_measure_def)
        qed
        from less.hyps [OF this tri step(2), of "block_xor b (v m ! nat s)"]
        obtain m' c'' b' where r:
          "addEquation_loop m c' (block_xor b (v m ! nat s)) = Some (Inr (m', c'', b'))"
          "triangular L m'" "equation_ok L c''"
          "c'' \<noteq> [] \<longrightarrow> coeff m' ! nat (hd c'') = []"
          "occupied m' = occupied m" "redundant m c' \<longrightarrow> redundant m' c''"
          by blast
        have "redundant m c \<longrightarrow> redundant m c'"
          using redundant_xor_step [OF tri s(3) s(1) step(3)] Cons by simp
        then show ?thesis using r step(1) Cons by auto
      next
        case False
        then have lt: "length (s # cs) < length (coeff m ! nat s)" by simp
        define m1 where "m1 = m\<lparr>coeff := (coeff m)[nat s := s # cs], v := (v m)[nat s := b]\<rparr>"
        note step0 = addEquation_loop_swap_step [OF tri ok [unfolded Cons] lt]
        note step = step0(1) [of b, folded m1_def] step0(2) [of b, folded m1_def] step0(3)
          step0(4) step0(5) [of b, folded m1_def]
        have "loop_measure L m1 (coeff m ! nat s) < loop_measure L m c"
        proof -
          obtain r rs where rr: "coeff m ! nat s = r # rs" using row by (cases "coeff m ! nat s") auto
          then have "r = s" using step(4) by simp
          then show ?thesis
            using rr lt lens s Cons by (simp add: loop_measure_def m1_def)
        qed
        from less.hyps [OF this step(2) step(3), of "v m ! nat s"]
        obtain m' c'' b' where r:
          "addEquation_loop m1 (coeff m ! nat s) (v m ! nat s) = Some (Inr (m', c'', b'))"
          "triangular L m'" "equation_ok L c''"
          "c'' \<noteq> [] \<longrightarrow> coeff m' ! nat (hd c'') = []"
          "occupied m' = occupied m1" "redundant m1 (coeff m ! nat s) \<longrightarrow> redundant m' c''"
          by blast
        have "redundant m c \<longrightarrow> redundant m1 (coeff m ! nat s)"
          using redundant_swap_step [OF tri ok [unfolded Cons], of m1] Cons by (simp add: m1_def)
        then show ?thesis using r step(1) step(5) Cons by auto
      qed
    qed
  qed
qed

lemma triangular_new: "triangular L (newSparseMatrix L)"
  by (simp add: triangular_def newSparseMatrix_def row_ok_def)

lemma addEquation_correct:
  assumes tri: "triangular L m" and ok: "equation_ok L c"
  shows "\<exists>m'. addEquation m c b = Some (Inr m') \<and> triangular L m' \<and>
           (redundant m c \<longrightarrow>
              (\<exists>m0 b0. addEquation_loop m c b = Some (Inr (m0, [], b0))) \<and>
              occupied m' = occupied m)"
proof -
  from addEquation_loop_correct [OF tri ok, of b]
  obtain m1 c1 b1 where r:
    "addEquation_loop m c b = Some (Inr (m1, c1, b1))"
    "triangular L m1" "equation_ok L c1"
    "c1 \<noteq> [] \<longrightarrow> coeff m1 ! nat (hd c1) = []"
    "occupied m1 = occupied m" "redundant m c \<longrightarrow> redundant m1 c1"
    by blast
  have lens: "length (coeff m1) = L" "length (v m1) = L"
    using r(2) by (auto simp: triangular_def)
  show ?thesis
  proof (cases c1)
    case Nil
    then have "addEquation m c b = Some (Inr m1)"
      using r(1) by (simp add: addEquation_def)
    then show ?thesis using r Nil by auto
  next
    case (Cons s cs)
    have s: "0 \<le> s" "s < int L" "nat s < L"
      using equation_ok_Cons r(3) Cons by auto
    define m' where "m' = m1\<lparr>coeff := (coeff m1)[nat s := c1], v := (v m1)[nat s := b1]\<rparr>"
    have eq: "addEquation m c b = Some (Inr m')"
      using r(1) Cons s lens by (simp add: addEquation_def m'_def)
    have tri': "triangular L m'"
      unfolding triangular_def
    proof (intro conjI allI impI)
      show "length (coeff m') = L" "length (v m') = L" using lens by (simp_all add: m'_def)
      fix i assume "i < L"
      then show "row_ok L i (coeff m' ! i)"
        using r(2) r(3) s lens Cons
        by (cases "i = nat s") (auto simp: m'_def triangular_def row_ok_def)
    qed
    have "\<not> redundant m1 c1"
    proof
      assume "redundant m1 c1"
      then obtain T where T: "T \<subseteq> {..<L}" "set (s # cs) = combination m1 T"
        using Cons lens by (auto simp: redundant_def)
      have "sorted_wrt (<) (s # cs)" using r(3) Cons by (simp add: equation_ok_def)
      from combination_head [OF r(2) T this] have "coeff m1 ! nat s \<noteq> []" by simp
      then show False using r(4) Cons by simp
    qed
    then have "\<not> redundant m c" using r(6) by blast
    then show ?thesis using eq tri' by blast
  qed
qed

text \<open>
  C2.  Starting from a matrix of \<open>L\<close> rows that satisfies the invariant (the matrix the
  decoders create does), any sequence of \<^verbatim>\<open>addEquation\<close> calls whose index lists are
  strictly ascending inside \<open>[0, L)\<close> runs to completion, and afterwards every row is
  empty or begins with its own index, is strictly ascending and stays inside \<open>[0, L)\<close>.
\<close>

theorem addEquations_triangular:
  assumes "triangular L m" and "\<forall>eq \<in> set eqs. equation_ok L (fst eq)"
  shows "\<exists>m'. addEquations m eqs = Some (Inr m') \<and> length (coeff m') = L \<and>
           (\<forall>i < L. coeff m' ! i = [] \<or>
              (hd (coeff m' ! i) = int i \<and> sorted_wrt (<) (coeff m' ! i) \<and>
               (\<forall>x \<in> set (coeff m' ! i). 0 \<le> x \<and> x < int L)))"
proof -
  have "\<exists>m'. addEquations m eqs = Some (Inr m') \<and> triangular L m'"
    using assms
  proof (induction eqs arbitrary: m)
    case Nil
    then show ?case by simp
  next
    case (Cons eq eqs)
    from addEquation_correct [OF Cons.prems(1), of "fst eq" "snd eq"] Cons.prems(2)
    obtain m1 where m1: "addEquation m (fst eq) (snd eq) = Some (Inr m1)" "triangular L m1"
      by auto
    from Cons.IH [OF m1(2)] Cons.prems(2)
    obtain m' where "addEquations m1 eqs = Some (Inr m')" "triangular L m'"
      by auto
    then show ?case using m1(1) by auto
  qed
  then show ?thesis
    by (auto simp: triangular_def row_ok_def equation_ok_def)
qed

theorem addEquations_triangular_witness:
  "triangular 4 (newSparseMatrix 4)
   \<and> equation_ok 4 [2, 3] \<and> equation_ok 4 [2] \<and> equation_ok 4 [0, 1, 2, 3]
   \<and> equation_ok 4 [3] \<and> equation_ok 4 [0, 2]
   \<and> (\<exists>m'. addEquations (newSparseMatrix 4)
               [([2, 3], \<lparr>data = [1], padding = 0\<rparr>), ([2], \<lparr>data = [2], padding = 0\<rparr>),
                ([0, 1, 2, 3], \<lparr>data = [4], padding = 0\<rparr>), ([3], \<lparr>data = [3], padding = 0\<rparr>),
                ([0, 2], \<lparr>data = [8], padding = 0\<rparr>)] = Some (Inr m')
           \<and> length (coeff m') = 4
           \<and> (\<forall>i < 4. coeff m' ! i = [] \<or>
                (hd (coeff m' ! i) = int i \<and> sorted_wrt (<) (coeff m' ! i) \<and>
                 (\<forall>x \<in> set (coeff m' ! i). 0 \<le> x \<and> x < int 4))))"
proof -
  have t: "triangular 4 (newSparseMatrix 4)"
    by (rule triangular_new)
  have e1: "equation_ok 4 [2, 3]" "equation_ok 4 [2]" "equation_ok 4 [0, 1, 2, 3]"
    "equation_ok 4 [3]" "equation_ok 4 [0, 2]"
    by (simp_all add: equation_ok_def)
  have e: "\<forall>eq \<in> set [([2, 3], \<lparr>data = [1], padding = 0\<rparr>), ([2], \<lparr>data = [2], padding = 0\<rparr>),
                    ([0, 1, 2, 3], \<lparr>data = [4], padding = 0\<rparr>), ([3], \<lparr>data = [3], padding = 0\<rparr>),
                    ([0, 2], \<lparr>data = [8 :: byte], padding = 0\<rparr>)]. equation_ok 4 (fst eq)"
    using e1 by simp
  show ?thesis
    using t e1 addEquations_triangular [OF t e] by blast
qed

text \<open>
  C3.  On a matrix of \<open>L\<close> rows that satisfies the invariant, \<^verbatim>\<open>addEquation\<close> returns for
  every strictly ascending index list inside \<open>[0, L)\<close>, without a panic.  If the equation
  is redundant (its index set is the XOR of rows of the matrix) the reduction loop ends
  with the empty index list and the set of occupied rows is the one before the call.
\<close>

theorem addEquation_terminates:
  assumes "triangular L m" and "equation_ok L c"
  shows "\<exists>m'. addEquation m c b = Some (Inr m') \<and>
           (redundant m c \<longrightarrow>
              (\<exists>m0 b0. addEquation_loop m c b = Some (Inr (m0, [], b0))) \<and>
              occupied m' = occupied m)"
  using addEquation_correct [OF assms, of b] by blast


lemma combination_empty: "combination m {} = {}"
  by (simp add: combination_def)

theorem addEquation_terminates_witness:
  "triangular 2 \<lparr>coeff = [[0], [1]], v = [\<lparr>data = [1], padding = 0\<rparr>, \<lparr>data = [3], padding = 0\<rparr>]\<rparr>
   \<and> equation_ok 2 [0, 1]
   \<and> redundant \<lparr>coeff = [[0], [1]], v = [\<lparr>data = [1], padding = 0\<rparr>, \<lparr>data = [3], padding = 0\<rparr>]\<rparr> [0, 1]
   \<and> (\<exists>m'. addEquation \<lparr>coeff = [[0], [1]], v = [\<lparr>data = [1], padding = 0\<rparr>, \<lparr>data = [3], padding = 0\<rparr>]\<rparr>
               [0, 1] \<lparr>data = [2], padding = 0\<rparr> = Some (Inr m')
           \<and> (\<exists>m0 b0. addEquation_loop \<lparr>coeff = [[0], [1]], v = [\<lparr>data = [1], padding = 0\<rparr>, \<lparr>data = [3], padding = 0\<rparr>]\<rparr>
               [0, 1] \<lparr>data = [2], padding = 0\<rparr> = Some (Inr (m0, [], b0)))
           \<and> occupied m' = occupied \<lparr>coeff = [[0], [1]], v = [\<lparr>data = [1], padding = 0\<rparr>, \<lparr>data = [3], padding = 0\<rparr>]\<rparr>)"
proof -
  define M where "M = \<lparr>coeff = [[0], [1]], v = [\<lparr>data = [1 :: byte], padding = 0\<rparr>, \<lparr>data = [3], padding = 0\<rparr>]\<rparr>"
  have t: "triangular 2 M"
    by (simp add: M_def triangular_def row_ok_def equation_ok_def less_Suc_eq numeral_2_eq_2)
  have e: "equation_ok 2 [0, 1]"
    by (simp add: equation_ok_def)
  have "combination M (sym_diff (sym_diff {} {0}) {1}) = {0, 1}"
    by (simp only: combination_toggle finite.intros finite_Diff finite_Un combination_empty)
       (auto simp: M_def)
  moreover have "sym_diff (sym_diff {} {0::nat}) {1} = {0, 1}" by auto
  ultimately have "set [0, 1] = combination M {0, 1}" by simp
  then have r: "redundant M [0, 1]"
    unfolding redundant_def by (intro exI [of _ "{0, 1}"]) (auto simp: M_def)
  show ?thesis
    using t e r addEquation_terminates [OF t e, of "\<lparr>data = [2], padding = 0\<rparr>"]
    unfolding M_def by blast
qed

section \<open>Properties of encoding\<close>

lemma padding_block_xor_nonneg: "0 \<le> padding b \<Longrightarrow> 0 \<le> padding (block_xor b a)"
  by (simp add: padding_block_xor)

lemma generateLubyTransformBlock_loop_eq:
  assumes "\<forall>i \<in> set indices. 0 \<le> i"
  shows "generateLubyTransformBlock_loop source symbol indices =
           Inr (foldl block_xor symbol
                  (map (\<lambda>i. source ! nat i) (filter (\<lambda>i. i < int (length source)) indices)))"
  using assms
proof (induction indices arbitrary: symbol)
  case Nil
  then show ?case by simp
next
  case (Cons i indices)
  then show ?case by (simp add: index_def)
qed

lemma padding_foldl_block_xor: "0 \<le> padding b \<Longrightarrow> 0 \<le> padding (foldl block_xor b bs)"
  by (induction bs arbitrary: b) (simp_all add: padding_block_xor_nonneg)

lemma block_bytes_Inr:
  assumes "0 \<le> padding b"
  shows "\<exists>bytes. block_bytes b = Inr bytes"
  using assms by (simp add: block_bytes_def block_length_def)

lemma EncodeLTBlocks_loop_ok:
  assumes "\<forall>bid \<in> set ids. \<exists>ixs. PickIndices c bid = Some (Inr ixs) \<and> (\<forall>i \<in> set ixs. 0 \<le> i)"
  shows "\<exists>blocks. EncodeLTBlocks_loop source c ids = Some (Inr blocks) \<and> map BlockCode blocks = ids"
  using assms
proof (induction ids)
  case Nil
  then show ?case by simp
next
  case (Cons bid ids)
  from Cons.prems obtain ixs where ixs: "PickIndices c bid = Some (Inr ixs)" "\<forall>i \<in> set ixs. 0 \<le> i"
    by auto
  define b where "b = foldl block_xor \<lparr>data = [], padding = 0\<rparr>
                  (map (\<lambda>i. source ! nat i) (filter (\<lambda>i. i < int (length source)) ixs))"
  have g: "generateLubyTransformBlock source ixs = Inr b"
    unfolding generateLubyTransformBlock_def b_def
    by (rule generateLubyTransformBlock_loop_eq [OF ixs(2)])
  have "0 \<le> padding b" unfolding b_def by (rule padding_foldl_block_xor) simp
  then obtain bytes where bytes: "block_bytes b = Inr bytes"
    using block_bytes_Inr by blast
  from Cons.IH Cons.prems obtain rest where
    rest: "EncodeLTBlocks_loop source c ids = Some (Inr rest)" "map BlockCode rest = ids"
    by auto
  show ?case using ixs(1) g bytes rest by simp
qed

text \<open>
  C10.  For index lists of non-negative indices (every \<^verbatim>\<open>PickIndices\<close> of the package
  returns such lists), \<^verbatim>\<open>generateLubyTransformBlock\<close> returns the XOR of exactly the blocks
  \<open>source[i]\<close> with \<open>i < len(source)\<close>, in the order of the list, and skips every other
  index; so \<^verbatim>\<open>EncodeLTBlocks\<close> returns one block per id without a panic, however large the
  indices that \<^verbatim>\<open>PickIndices\<close> returns.
\<close>

theorem generateLubyTransformBlock_in_bounds:
  "((\<forall>i \<in> set indices. 0 \<le> i) \<longrightarrow>
      generateLubyTransformBlock source indices =
        Inr (foldl block_xor \<lparr>data = [], padding = 0\<rparr>
               (map (\<lambda>i. source ! nat i) (filter (\<lambda>i. i < int (length source)) indices))))
   \<and> (GenerateIntermediateBlocks c message (SourceBlocks c) = Some (Inr source)
        \<and> (\<forall>bid \<in> set ids. \<exists>ixs. PickIndices c bid = Some (Inr ixs) \<and> (\<forall>i \<in> set ixs. 0 \<le> i))
      \<longrightarrow> (\<exists>blocks. EncodeLTBlocks message ids c = Some (Inr blocks) \<and> map BlockCode blocks = ids))"
proof (intro conjI impI)
  assume "\<forall>i \<in> set indices. 0 \<le> i"
  then show "generateLubyTransformBlock source indices =
        Inr (foldl block_xor \<lparr>data = [], padding = 0\<rparr>
               (map (\<lambda>i. source ! nat i) (filter (\<lambda>i. i < int (length source)) indices)))"
    unfolding generateLubyTransformBlock_def by (rule generateLubyTransformBlock_loop_eq)
next
  assume a: "GenerateIntermediateBlocks c message (SourceBlocks c) = Some (Inr source)
        \<and> (\<forall>bid \<in> set ids. \<exists>ixs. PickIndices c bid = Some (Inr ixs) \<and> (\<forall>i \<in> set ixs. 0 \<le> i))"
  then show "\<exists>blocks. EncodeLTBlocks message ids c = Some (Inr blocks) \<and> map BlockCode blocks = ids"
    using EncodeLTBlocks_loop_ok [of ids c source] by (simp add: EncodeLTBlocks_def)
qed

lemma xor_loop_example: "xor_loop 0 (replicate 2 0) [7, 9] = [7, 9 :: byte]"
  by (simp add: xor_loop.simps numeral_2_eq_2)

theorem generateLubyTransformBlock_in_bounds_witness:
  "(0 :: int) \<le> 0 \<and> (0 :: int) \<le> 5
   \<and> generateLubyTransformBlock [\<lparr>data = [7, 9], padding = 0\<rparr>, \<lparr>data = [1], padding = 1\<rparr>] [0, 5]
       = Inr \<lparr>data = [7, 9], padding = 0\<rparr>
   \<and> (\<exists>blocks.
        EncodeLTBlocks [7, 9, 1] [3]
          \<lparr>SourceBlocks = 2,
           GenerateIntermediateBlocks =
             (\<lambda>message numBlocks. Some (Inr [\<lparr>data = [7, 9], padding = 0\<rparr>, \<lparr>data = [1], padding = 1\<rparr>])),
           PickIndices = (\<lambda>bid. Some (Inr [0, 5]))\<rparr> = Some (Inr blocks)
        \<and> map BlockCode blocks = [3])"
proof -
  define c where "c = \<lparr>SourceBlocks = 2,
           GenerateIntermediateBlocks =
             (\<lambda>message numBlocks. Some (Inr [\<lparr>data = [7, 9 :: byte], padding = 0\<rparr>, \<lparr>data = [1], padding = 1\<rparr>])),
           PickIndices = (\<lambda>bid :: 64 word. Some (Inr [0, 5 :: int]) :: (go_panic + int list) option)\<rparr>"
  define source where "source = [\<lparr>data = [7, 9 :: byte], padding = 0\<rparr>, \<lparr>data = [1], padding = 1\<rparr>]"
  have h1: "\<forall>i \<in> set [0, 5 :: int]. 0 \<le> i" by simp
  have h2: "GenerateIntermediateBlocks c [7, 9, 1] (SourceBlocks c) = Some (Inr source)
        \<and> (\<forall>bid \<in> set [3]. \<exists>ixs. PickIndices c bid = Some (Inr ixs) \<and> (\<forall>i \<in> set ixs. 0 \<le> i))"
    by (simp add: c_def source_def)
  note th = generateLubyTransformBlock_in_bounds [of "[0, 5]" source c "[7, 9, 1]" "[3]"]
  have g: "generateLubyTransformBlock source [0, 5] = Inr \<lparr>data = [7, 9], padding = 0\<rparr>"
    using th [THEN conjunct1] h1
    by (simp add: source_def block_xor_def xor_loop_example)
  have e: "\<exists>blocks. EncodeLTBlocks [7, 9, 1] [3] c = Some (Inr blocks) \<and> map BlockCode blocks = [3]"
    using th [THEN conjunct2] h2 by blast
  show ?thesis
    using g e unfolding c_def source_def by simp
qed

text \<open>
  The guard of the loop is \<^verbatim>\<open>i < len(source)\<close> alone: a negative index passes it, and
  \<^verbatim>\<open>source[i]\<close> panics.  So the statement does not hold for every index list.
\<close>

theorem generateLubyTransformBlock_in_bounds_counterexample:
  "generateLubyTransformBlock [] [- 1] = Inl IndexOutOfRange
   \<and> EncodeLTBlocks [7, 9, 1] [3]
         \<lparr>SourceBlocks = 2,
          GenerateIntermediateBlocks =
            (\<lambda>message numBlocks. Some (Inr [\<lparr>data = [7, 9], padding = 0\<rparr>, \<lparr>data = [1], padding = 1\<rparr>])),
          PickIndices = (\<lambda>bid. Some (Inr [- 1]))\<rparr> = Some (Inl IndexOutOfRange)"
  by (simp add: generateLubyTransformBlock_def EncodeLTBlocks_def index_def)

section \<open>Properties of Decode\<close>

lemma Decode_matrix_Nil:
  "Decode_matrix d = Inr (Nil, d') \<longleftrightarrow> \<not> determined (matrix d) \<and> d' = d"
  by (auto simp: Decode_matrix_def split: sum.splits prod.splits)

lemma Decode_raptor_Nil:
  "Decode_raptor f d = Some (Inr (Nil, d')) \<longleftrightarrow> \<not> determined (matrix d) \<and> d' = d"
  by (auto simp: Decode_raptor_def split: sum.splits prod.splits option.splits)

lemma Decode_Nil:
  "Decode f d = Some (Inr (Nil, d')) \<longleftrightarrow> \<not> determined (decoder_matrix d) \<and> d' = d"
proof (cases d)
  case (BinaryDecoder s)
  then show ?thesis
    using Decode_matrix_Nil [of s]
    by (cases "Decode_matrix s") (auto simp: map_prod_def split: prod.splits)
next
  case (LubyDecoder s)
  then show ?thesis
    using Decode_matrix_Nil [of s]
    by (cases "Decode_matrix s") (auto simp: map_prod_def split: prod.splits)
next
  case (OnlineDecoder s)
  then show ?thesis
    using Decode_matrix_Nil [of s]
    by (cases "Decode_matrix s") (auto simp: map_prod_def split: prod.splits)
next
  case (RaptorDecoder s)
  show ?thesis
  proof (cases "Decode_raptor f s")
    case None
    then show ?thesis using RaptorDecoder Decode_raptor_Nil [of f s s] by auto
  next
    case (Some r)
    then show ?thesis
      using RaptorDecoder Decode_raptor_Nil [of f s]
      by (cases r) (auto simp: map_prod_def split: prod.splits)
  qed
next
  case (RU10Decoder s)
  then show ?thesis
    using Decode_matrix_Nil [of s]
    by (cases "Decode_matrix s") (auto simp: map_prod_def split: prod.splits)
qed

text \<open>
  C8.  For every decoder variant in every state, \<^verbatim>\<open>Decode\<close> returns nil exactly when the
  matrix is not determined, that is when some row has an empty coefficient list, and then
  the decoder is left as it was.
\<close>

theorem Decode_nil_iff_undetermined:
  "((\<exists>d'. Decode f d = Some (Inr (Nil, d'))) \<longleftrightarrow> \<not> determined (decoder_matrix d))
   \<and> (\<not> determined (decoder_matrix d) \<longleftrightarrow> (\<exists>r \<in> set (coeff (decoder_matrix d)). r = []))
   \<and> (\<forall>d'. Decode f d = Some (Inr (Nil, d')) \<longrightarrow> d' = d)"
  by (auto simp: Decode_Nil determined_def)

theorem Decode_nil_iff_undetermined_witness:
  "\<not> determined (decoder_matrix (LubyDecoder \<lparr>numSourceBlocks = 2, messageLength = 3,
        matrix = \<lparr>coeff = [[0], []], v = [\<lparr>data = [1, 2], padding = 0\<rparr>, \<lparr>data = [], padding = 0\<rparr>]\<rparr>\<rparr>))
   \<and> Decode (\<lambda>k x. Some (Inr [])) (LubyDecoder \<lparr>numSourceBlocks = 2, messageLength = 3,
        matrix = \<lparr>coeff = [[0], []], v = [\<lparr>data = [1, 2], padding = 0\<rparr>, \<lparr>data = [], padding = 0\<rparr>]\<rparr>\<rparr>)
       = Some (Inr (Nil, LubyDecoder \<lparr>numSourceBlocks = 2, messageLength = 3,
        matrix = \<lparr>coeff = [[0], []], v = [\<lparr>data = [1, 2], padding = 0\<rparr>, \<lparr>data = [], padding = 0\<rparr>]\<rparr>\<rparr>))"
proof -
  define f :: lt_indices where "f = (\<lambda>k x. Some (Inr []))"
  define d where "d = LubyDecoder \<lparr>numSourceBlocks = 2, messageLength = 3,
        matrix = \<lparr>coeff = [[0], []], v = [\<lparr>data = [1, 2 :: byte], padding = 0\<rparr>, \<lparr>data = [], padding = 0\<rparr>]\<rparr>\<rparr>"
  have u: "\<not> determined (decoder_matrix d)"
    by (simp add: d_def determined_def)
  from Decode_nil_iff_undetermined [of f d] u
  obtain d' where d': "Decode f d = Some (Inr (Nil, d'))" by blast
  with Decode_nil_iff_undetermined [of f d] have "d' = d" by blast
  then show ?thesis using u d' unfolding d_def f_def by simp
qed

section \<open>Properties of pickDegree\<close>

text \<open>
  C6 fails on the code.  The ideal soliton CDF on 19 blocks, summed as the package sums
  it, ends at \<open>1 - 2 ^ -52\<close>; it is ascending and has 20 entries.  For the draw
  \<open>r = 1 - 2 ^ -53\<close>, inside \<open>[0, 1)\<close>, no entry exceeds \<open>r\<close>, the binary search returns
  \<open>len(cdf)\<close>, and \<^verbatim>\<open>cdf[d]\<close> panics where the claim has the result 19.
\<close>

theorem pickDegree_past_end:
  "(case solitonDistribution 19 of
      Inl e \<Rightarrow> False
    | Inr cdf \<Rightarrow>
        sorted cdf \<and> length cdf = 20 \<and> last cdf = 1 - 1 / 2 ^ 52
        \<and> pickDegree (1 - 1 / 2 ^ 53) cdf = Inl IndexOutOfRange)"
  by code_simp

text \<open>The same on a short array, and the fall-through to \<open>d + 1\<close> on a tie.\<close>

lemma pickDegree_short: "pickDegree (3 / 4) [0, 1 / 2] = Inl IndexOutOfRange"
  by code_simp

lemma pickDegree_tie: "pickDegree (1 / 2) [0, 1 / 2, 1 / 2, 1] = Inr 2"
  by code_simp

section \<open>Properties of intermediateSymbols\<close>

lemma centerBinomial_15: "centerBinomial 15 = Inr 25740"
  by code_simp

lemma binomial_15_8: "int (15 choose 8) = 6435"
proof -
  have "fact 8 * fact (15 - 8) * (15 choose 8) = (fact 15 :: nat)"
    by (rule binomial_fact_lemma) simp
  then have "(203212800 :: nat) * (15 choose 8) = 203212800 * 6435"
    by (simp add: fact_numeral)
  then show ?thesis
    by simp
qed

lemma intermediateSymbols_x_7000: "intermediateSymbols_x 7000 118 = Some 119"
  by code_simp

lemma intermediateSymbols_h_7191: "intermediateSymbols_h 7191 6 = Some (Inr 15)"
  by code_simp

lemma float64_7000:
  "float64_mul 2 (float64_of_int 7000) = 14000"
  "\<lceil>float64_mul (float64_round (1 / 100)) (float64_of_int 7000)\<rceil> = 70"
  "float64_add (float64_of_int 191) (float64_of_int 7000) = 7191"
  by code_simp+

lemma wrap64_7000:
  "wrap64 (70 + 119) = 189" "wrap64 (7000 + 191) = 7191" "wrap64 (7191 + 15) = 7206"
  by (simp_all add: wrap64_def)

text \<open>
  C7.  At \<open>k = 7000\<close>: \<open>X = 119\<close>, \<open>\<lceil>0.01 \<cdot> k\<rceil> + X = 189\<close> and \<open>S = 191\<close>.  The smallest \<open>H\<close>
  with \<open>choose(H, \<lceil>H/2\<rceil>) \<ge> k + S = 7191\<close> is 16, because \<open>choose(15, 8) = 6435\<close>.  But
  \<^verbatim>\<open>centerBinomial(15)\<close> is 25740: when \<^verbatim>\<open>choose\<close> comes to the denominator 4, no numerator
  left is a multiple of 4, and the factor stays.  So \<^verbatim>\<open>intermediateSymbols(7000)\<close> returns
  \<open>H = 15\<close> and \<open>L = 7206\<close>.  The hypotheses give the values of \<^verbatim>\<open>math.Sqrt\<close> and
  \<^verbatim>\<open>math.Log\<close> at the arguments used, and the entry of the table of primes.
\<close>

theorem intermediateSymbols_7000:
  assumes "\<lfloor>Sqrt gm 14000\<rfloor> = 118"
    and "\<lfloor>float64_div (Log gm 7191) (Log gm 4)\<rfloor> = 6"
    and "smallestPrimeGreaterOrEqual smallPrimes 189 = Some (Inr 191)"
  shows "intermediateSymbols smallPrimes gm 7000 = Some (Inr (7206, 191, 15))
         \<and> centerBinomial 15 = Inr 25740
         \<and> int (15 choose 8) = 6435"
proof (intro conjI)
  show "intermediateSymbols smallPrimes gm 7000 = Some (Inr (7206, 191, 15))"
    unfolding intermediateSymbols_def Let_def float64_7000 assms
    apply (simp only: intermediateSymbols_x_7000 option.case if_False rel_simps)
    apply (simp only: float64_7000 wrap64_7000 assms option.case sum.case
        intermediateSymbols_h_7191)
    done
qed (fact centerBinomial_15 binomial_15_8)+

theorem intermediateSymbols_7000_witness:
  "intermediateSymbols
     [2, 3, 5, 7, 11, 13, 17, 19, 23, 29, 31, 37, 41, 43, 47, 53, 59, 61, 67, 71, 73, 79, 83, 89,
      97, 101, 103, 107, 109, 113, 127, 131, 137, 139, 149, 151, 157, 163, 167, 173, 179, 181,
      191, 193, 197, 199]
     \<lparr>Sqrt = (\<lambda>y. 118), Log = (\<lambda>y. if y = 4 then 1 else 6)\<rparr> 7000
   = Some (Inr (7206, 191, 15))"
proof -
  let ?tbl = "[2, 3, 5, 7, 11, 13, 17, 19, 23, 29, 31, 37, 41, 43, 47, 53, 59, 61, 67, 71, 73,
      79, 83, 89, 97, 101, 103, 107, 109, 113, 127, 131, 137, 139, 149, 151, 157, 163, 167, 173,
      179, 181, 191, 193, 197, 199 :: int]"
  let ?gm = "\<lparr>Sqrt = (\<lambda>y. 118), Log = (\<lambda>y. if y = 4 then 1 else 6)\<rparr>"
  have a: "\<lfloor>Sqrt ?gm 14000\<rfloor> = 118"
    by simp
  have b: "\<lfloor>float64_div (Log ?gm 7191) (Log ?gm 4)\<rfloor> = 6"
    by code_simp
  have c: "smallestPrimeGreaterOrEqual ?tbl 189 = Some (Inr 191)"
    by code_simp
  from intermediateSymbols_7000 [OF a b c] show ?thesis
    by (rule conjunct1)
qed

end
